theory Spec2Isabelle
  imports Complex_Main "HOL-Library.Stream"
begin

section \<open>SimInf: the direct SSA solver of \<^verbatim>\<open>src/core/siminf_run.c\<close>\<close>

text \<open>
  This theory embeds \<^verbatim>\<open>SimInf_solver_ssa\<close> and \<^verbatim>\<open>SimInf_run_solver_ssa\<close>.
  The struct \<^verbatim>\<open>SimInf_thread_args\<close> is a record, every C loop is a recursive function or
  a fold over the index range of the loop, and the two unbounded \<^verbatim>\<open>for (;;)\<close> loops carry
  fuel and return \<open>None\<close> when it runs out.

  Arrays are lists and indices are natural numbers. The C code has undefined behaviour
  where it reads or writes out of range; the theorems state the bounds they need as
  hypotheses. The compartment counts are C \<^verbatim>\<open>int\<close>s whose overflow is undefined in C;
  they are mathematical integers here.
\<close>

subsection \<open>The C type \<^verbatim>\<open>double\<close>\<close>

text \<open>
  A \<^verbatim>\<open>double\<close> is a finite value, an infinity or a NaN. The special values follow
  IEEE 754: a comparison with a NaN is false, \<open>\<infinity> - \<infinity>\<close> is a NaN, and so on. Finite
  values are carried as reals and finite arithmetic is exact: rounding, overflow to an
  infinity and the sign of zero are not modelled. No theorem below depends on a finite
  sum being exact: the statements speak about the sums in the order in which the code
  forms them.
\<close>

datatype double = Fin real | PInf | MInf | NaN

instantiation double :: "{zero, one, plus, minus, uminus, times, inverse, ord}"
begin

definition zero_double :: double where "zero_double = Fin 0"

definition one_double :: double where "one_double = Fin 1"

fun plus_double :: "double \<Rightarrow> double \<Rightarrow> double" where
  "plus_double NaN _ = NaN"
| "plus_double _ NaN = NaN"
| "plus_double (Fin x) (Fin y) = Fin (x + y)"
| "plus_double PInf MInf = NaN"
| "plus_double MInf PInf = NaN"
| "plus_double PInf _ = PInf"
| "plus_double _ PInf = PInf"
| "plus_double MInf _ = MInf"
| "plus_double _ MInf = MInf"

fun uminus_double :: "double \<Rightarrow> double" where
  "uminus_double (Fin x) = Fin (- x)"
| "uminus_double PInf = MInf"
| "uminus_double MInf = PInf"
| "uminus_double NaN = NaN"

definition minus_double :: "double \<Rightarrow> double \<Rightarrow> double" where
  "minus_double a b = a + (- b)"

fun times_double :: "double \<Rightarrow> double \<Rightarrow> double" where
  "times_double NaN _ = NaN"
| "times_double _ NaN = NaN"
| "times_double (Fin x) (Fin y) = Fin (x * y)"
| "times_double (Fin x) PInf = (if x = 0 then NaN else if 0 < x then PInf else MInf)"
| "times_double (Fin x) MInf = (if x = 0 then NaN else if 0 < x then MInf else PInf)"
| "times_double PInf (Fin y) = (if y = 0 then NaN else if 0 < y then PInf else MInf)"
| "times_double MInf (Fin y) = (if y = 0 then NaN else if 0 < y then MInf else PInf)"
| "times_double PInf PInf = PInf"
| "times_double MInf MInf = PInf"
| "times_double PInf MInf = MInf"
| "times_double MInf PInf = MInf"

fun divide_double :: "double \<Rightarrow> double \<Rightarrow> double" where
  "divide_double NaN _ = NaN"
| "divide_double _ NaN = NaN"
| "divide_double (Fin x) (Fin y) =
     (if y \<noteq> 0 then Fin (x / y) else if x = 0 then NaN else if 0 < x then PInf else MInf)"
| "divide_double (Fin x) _ = Fin 0"
| "divide_double PInf (Fin y) = (if 0 \<le> y then PInf else MInf)"
| "divide_double MInf (Fin y) = (if 0 \<le> y then MInf else PInf)"
| "divide_double _ _ = NaN"

definition inverse_double :: "double \<Rightarrow> double" where
  "inverse_double a = divide (Fin 1) a"

fun less_eq_double :: "double \<Rightarrow> double \<Rightarrow> bool" where
  "less_eq_double NaN _ = False"
| "less_eq_double _ NaN = False"
| "less_eq_double (Fin x) (Fin y) = (x \<le> y)"
| "less_eq_double MInf _ = True"
| "less_eq_double _ PInf = True"
| "less_eq_double _ _ = False"

fun less_double :: "double \<Rightarrow> double \<Rightarrow> bool" where
  "less_double NaN _ = False"
| "less_double _ NaN = False"
| "less_double (Fin x) (Fin y) = (x < y)"
| "less_double PInf _ = False"
| "less_double _ MInf = False"
| "less_double _ _ = True"

instance ..

end

text \<open>\<^verbatim>\<open>isfinite\<close> and \<^verbatim>\<open>log\<close> of \<^verbatim>\<open>math.h\<close>, and \<^verbatim>\<open>floor\<close>.\<close>

fun isfinite :: "double \<Rightarrow> bool" where
  "isfinite (Fin x) = True"
| "isfinite _ = False"

fun log_double :: "double \<Rightarrow> double" where
  "log_double (Fin x) = (if 0 < x then Fin (ln x) else if x = 0 then MInf else NaN)"
| "log_double PInf = PInf"
| "log_double MInf = NaN"
| "log_double NaN = NaN"

fun floor_double :: "double \<Rightarrow> double" where
  "floor_double (Fin x) = Fin (of_int \<lfloor>x\<rfloor>)"
| "floor_double d = d"


subsection \<open>Error codes\<close>

text \<open>
  Modelled from the spec: the header \<^verbatim>\<open>SimInf.h\<close> that declares the error constants is
  not among the sources. Section 7 of the specification names the codes; every code is
  a non-zero \<^verbatim>\<open>int\<close> and distinct codes have distinct values. The theorems use the
  constants by name and depend only on these two facts.
\<close>

definition SIMINF_ERR_NEGATIVE_STATE :: int where
  "SIMINF_ERR_NEGATIVE_STATE = - 1"

definition SIMINF_ERR_INVALID_RATE :: int where
  "SIMINF_ERR_INVALID_RATE = - 11"

subsection \<open>The per-worker state \<^verbatim>\<open>SimInf_thread_args\<close>\<close>

text \<open>
  A propensity function receives pointers into the worker's arrays: the model passes
  the array from the pointed-to element on (\<open>drop\<close>). The post-timestep callback
  writes through its first pointer, so it returns its return code together with the
  values it has stored at that pointer, from the pointed-to element on.
\<close>

type_synonym PropensityFun =
  "int list \<Rightarrow> double list \<Rightarrow> double list \<Rightarrow> double list \<Rightarrow> double \<Rightarrow> double"

type_synonym PostTimeStepFun =
  "double list \<Rightarrow> int list \<Rightarrow> double list \<Rightarrow> double list \<Rightarrow> double list \<Rightarrow> nat \<Rightarrow> double
     \<Rightarrow> int \<times> double list"

text \<open>
  The fields are those the solver uses. The generator \<^verbatim>\<open>rng\<close> of the GNU Scientific
  Library is the sequence of variates it will deliver. The arrays \<^verbatim>\<open>u\<close>, \<^verbatim>\<open>v\<close>,
  \<^verbatim>\<open>v_new\<close>, \<^verbatim>\<open>ldata\<close> and \<^verbatim>\<open>update_node\<close> are the worker's part of the shared buffers,
  that is, the buffer from the worker's first node \<^verbatim>\<open>Ni\<close> on. The dense outputs \<^verbatim>\<open>U\<close> and
  \<^verbatim>\<open>V\<close> are one array for all workers and are passed beside the record; a null pointer
  is \<open>None\<close>.
\<close>

record thread_args =
  rng :: "double stream"
  Ntot :: nat
  Ni :: nat
  Nn :: nat
  Nt :: nat
  Nc :: nat
  Nd :: nat
  Nld :: nat
  irG :: "nat list"
  jcG :: "nat list"
  irS :: "nat list"
  jcS :: "nat list"
  prS :: "int list"
  tr_fun :: "PropensityFun list"
  pts_fun :: PostTimeStepFun
  tt :: double
  next_day :: double
  tspan :: "double list"
  tlen :: nat
  U_it :: nat
  V_it :: nat
  u :: "int list"
  v :: "double list"
  v_new :: "double list"
  ldata :: "double list"
  gdata :: "double list"
  update_node :: "int list"
  t_rate :: "double list"
  sum_t_rate :: "double list"
  t_time :: "double list"
  errcode :: int

text \<open>The call \<^verbatim>\<open>(*sa.tr_fun[j])(&sa.u[node * sa.Nc], &vv[node * sa.Nd],
  &sa.ldata[node * sa.Nld], sa.gdata, t)\<close>.\<close>

definition propensity :: "thread_args \<Rightarrow> nat \<Rightarrow> nat \<Rightarrow> double list \<Rightarrow> double \<Rightarrow> double" where
  "propensity sa j node vv t =
     (tr_fun sa ! j) (drop (node * Nc sa) (u sa)) (drop (node * Nd sa) vv)
       (drop (node * Nld sa) (ldata sa)) (gdata sa) t"

text \<open>The test \<^verbatim>\<open>!isfinite(rate) || rate < 0.0\<close>.\<close>

definition invalid_rate :: "double \<Rightarrow> bool" where
  "invalid_rate rate \<longleftrightarrow> \<not> isfinite rate \<or> rate < 0"

subsection \<open>Initialisation of the rates\<close>

text \<open>The body of the loop over \<^verbatim>\<open>j\<close> in the initialisation.\<close>

definition init_rate :: "nat \<Rightarrow> nat \<Rightarrow> thread_args \<Rightarrow> thread_args" where
  "init_rate node j sa =
     (let rate = propensity sa j node (v sa) (tt sa) in
      sa\<lparr>t_rate := (t_rate sa)[node * Nt sa + j := rate],
         sum_t_rate := (sum_t_rate sa)[node := sum_t_rate sa ! node + rate],
         errcode := (if invalid_rate rate then SIMINF_ERR_INVALID_RATE else errcode sa)\<rparr>)"

definition init_node :: "nat \<Rightarrow> thread_args \<Rightarrow> thread_args" where
  "init_node node sa =
     (let sa1 = sa\<lparr>sum_t_rate := (sum_t_rate sa)[node := 0]\<rparr>;
          sa2 = fold (init_rate node) [0..<Nt sa1] sa1
      in sa2\<lparr>t_time := (t_time sa2)[node := tt sa2]\<rparr>)"

definition init_worker :: "thread_args \<Rightarrow> thread_args" where
  "init_worker sa = fold init_node [0..<Nn sa] sa"

subsection \<open>One step of the direct SSA in a node\<close>

text \<open>\<^verbatim>\<open>gsl_rng_uniform_pos(sa.rng)\<close>: the next variate, and the generator advanced.\<close>

definition gsl_rng_uniform_pos :: "thread_args \<Rightarrow> double \<times> thread_args" where
  "gsl_rng_uniform_pos sa = (shd (rng sa), sa\<lparr>rng := stl (rng sa)\<rparr>)"

text \<open>
  Modelled from the spec: \<^verbatim>\<open>gsl_rng_uniform_pos\<close> belongs to the GNU Scientific Library,
  which is not among the sources. Section 4.6 of the specification draws the variate of a
  step from the unit interval without 0; the open interval is taken here, both end
  points excluded. \<open>unit_open\<close> is that range, and \<open>uniform_pos\<close> says of a generator
  that every variate it will deliver lies in it.
\<close>

definition unit_open :: "double \<Rightarrow> bool" where
  "unit_open x \<longleftrightarrow> 0 < x \<and> x < 1"

definition uniform_pos :: "double stream \<Rightarrow> bool" where
  "uniform_pos g \<longleftrightarrow> (\<forall>x\<in>sset g. unit_open x)"

text \<open>
  The scan \<^verbatim>\<open>for (tr = 0, cum = t_rate[node * Nt]; tr < Nt && rand > cum;
  tr++, cum += t_rate[node * Nt + tr]);\<close> with \<open>base = node * Nt\<close>. It returns \<^verbatim>\<open>tr\<close>;
  \<^verbatim>\<open>cum\<close> is not used after the loop.
\<close>

function scan :: "double list \<Rightarrow> nat \<Rightarrow> nat \<Rightarrow> double \<Rightarrow> nat \<Rightarrow> double \<Rightarrow> nat" where
  "scan rates base n rand tr cum =
     (if tr < n \<and> rand > cum
      then scan rates base n rand (tr + 1) (cum + rates ! (base + (tr + 1)))
      else tr)"
  by pat_completeness auto
termination
  by (relation "measure (\<lambda>(rates, base, n, rand, tr, cum). n - tr)") auto

declare scan.simps [simp del]

text \<open>The backward walk \<^verbatim>\<open>for ( ; tr > 0 && t_rate[node * Nt + tr] == 0.0; tr--);\<close>.\<close>

fun walk_back :: "double list \<Rightarrow> nat \<Rightarrow> nat \<Rightarrow> nat" where
  "walk_back rates base 0 = 0"
| "walk_back rates base (Suc tr) =
     (if rates ! (base + Suc tr) = 0 then walk_back rates base tr else Suc tr)"

text \<open>
  Step 1b with the floating point fix: the transition that fires, or \<open>None\<close> for the
  nil event.
\<close>

definition select_transition :: "thread_args \<Rightarrow> nat \<Rightarrow> double \<Rightarrow> nat option" where
  "select_transition sa node rand =
     (let base = node * Nt sa;
          tr0 = scan (t_rate sa) base (Nt sa) rand 0 (t_rate sa ! base);
          tr1 = (if tr0 \<ge> Nt sa then Nt sa - 1 else tr0)
      in if t_rate sa ! (base + tr1) = 0
         then (let tr2 = walk_back (t_rate sa) base tr1
               in if t_rate sa ! (base + tr2) = 0 then None else Some tr2)
         else Some tr1)"

text \<open>Step 1c: the body of the loop over \<^verbatim>\<open>j\<close>, and the loop.\<close>

definition update_entry :: "nat \<Rightarrow> nat \<Rightarrow> thread_args \<Rightarrow> thread_args" where
  "update_entry node j sa =
     (let k = node * Nc sa + irS sa ! j;
          u' = (u sa)[k := u sa ! k + prS sa ! j]
      in sa\<lparr>u := u',
            errcode := (if u' ! k < 0 then SIMINF_ERR_NEGATIVE_STATE else errcode sa)\<rparr>)"

definition update_state :: "nat \<Rightarrow> nat \<Rightarrow> thread_args \<Rightarrow> thread_args" where
  "update_state node tr sa = fold (update_entry node) [jcS sa ! tr..<jcS sa ! (tr + 1)] sa"

text \<open>Step 1d: the body of the loop over \<^verbatim>\<open>j\<close> carries \<^verbatim>\<open>delta\<close> beside the state.\<close>

definition refresh_entry :: "nat \<Rightarrow> nat \<Rightarrow> thread_args \<times> double \<Rightarrow> thread_args \<times> double" where
  "refresh_entry node j = (\<lambda>(sa, delta).
     (let i = irG sa ! j;
          old = t_rate sa ! (node * Nt sa + i);
          rate = propensity sa i node (v sa) (t_time sa ! node)
      in (sa\<lparr>t_rate := (t_rate sa)[node * Nt sa + i := rate],
             errcode := (if invalid_rate rate then SIMINF_ERR_INVALID_RATE else errcode sa)\<rparr>,
          delta + (rate - old))))"

definition refresh_rates :: "nat \<Rightarrow> nat \<Rightarrow> thread_args \<Rightarrow> thread_args" where
  "refresh_rates node tr sa =
     (let (sa', delta) = fold (refresh_entry node) [jcG sa ! tr..<jcG sa ! (tr + 1)] (sa, 0)
      in sa'\<lparr>sum_t_rate := (sum_t_rate sa')[node := sum_t_rate sa' ! node + delta]\<rparr>)"

text \<open>
  The body of the inner \<^verbatim>\<open>for (;;)\<close>: \<open>Break\<close> where the C code leaves the loop,
  \<open>Continue\<close> where it reaches the end of the body.
\<close>

datatype 'a loop = Break 'a | Continue 'a

text \<open>Steps 1b to 1d, after the time of the node has been advanced.\<close>

definition draw_transition :: "nat \<Rightarrow> thread_args \<Rightarrow> thread_args loop" where
  "draw_transition node sa =
     (let (U2, sa1) = gsl_rng_uniform_pos sa;
          rand = U2 * sum_t_rate sa1 ! node
      in case select_transition sa1 node rand of
           None \<Rightarrow> Break (sa1\<lparr>sum_t_rate := (sum_t_rate sa1)[node := 0]\<rparr>)
         | Some tr \<Rightarrow> Continue (refresh_rates node tr (update_state node tr sa1)))"

definition ssa_step :: "nat \<Rightarrow> thread_args \<Rightarrow> thread_args loop" where
  "ssa_step node sa =
     (if sum_t_rate sa ! node \<le> 0
      then Break (sa\<lparr>t_time := (t_time sa)[node := next_day sa]\<rparr>)
      else (let (U1, sa1) = gsl_rng_uniform_pos sa;
                tau = - log_double U1 / sum_t_rate sa1 ! node
            in if tau + t_time sa1 ! node \<ge> next_day sa1
               then Break (sa1\<lparr>t_time := (t_time sa1)[node := next_day sa1]\<rparr>)
               else draw_transition node
                      (sa1\<lparr>t_time := (t_time sa1)[node := t_time sa1 ! node + tau]\<rparr>)))"

text \<open>The inner \<^verbatim>\<open>for (;;)\<close> of a node, with fuel.\<close>

fun ssa_node :: "nat \<Rightarrow> nat \<Rightarrow> thread_args \<Rightarrow> thread_args option" where
  "ssa_node 0 node sa = None"
| "ssa_node (Suc fuel) node sa =
     (case ssa_step node sa of
        Break sa' \<Rightarrow> Some sa'
      | Continue sa' \<Rightarrow> ssa_node fuel node sa')"

text \<open>The loop \<^verbatim>\<open>for (node = 0; node < sa.Nn && !sa.errcode; node++)\<close>.\<close>

fun ssa_nodes :: "nat \<Rightarrow> nat list \<Rightarrow> thread_args \<Rightarrow> thread_args option" where
  "ssa_nodes fuel [] sa = Some sa"
| "ssa_nodes fuel (node # nodes) sa =
     (if errcode sa \<noteq> 0 then Some sa
      else case ssa_node fuel node sa of
             None \<Rightarrow> None
           | Some sa' \<Rightarrow> ssa_nodes fuel nodes sa')"

definition ssa_phase :: "nat \<Rightarrow> thread_args \<Rightarrow> thread_args option" where
  "ssa_phase fuel sa = ssa_nodes fuel [0..<Nn sa] sa"

subsection \<open>The post-timestep callback and the full refresh of the rates\<close>

text \<open>\<^verbatim>\<open>memcpy(&dst[off], src, n * sizeof *src)\<close> on arrays.\<close>

definition write_at :: "'a list \<Rightarrow> nat \<Rightarrow> 'a list \<Rightarrow> 'a list" where
  "write_at dst off vals = take off dst @ vals @ drop (off + length vals) dst"

definition memcpy :: "'a list \<Rightarrow> nat \<Rightarrow> 'a list \<Rightarrow> nat \<Rightarrow> 'a list" where
  "memcpy dst off src n = write_at dst off (take n src)"

text \<open>The call of \<^verbatim>\<open>sa.pts_fun\<close> for a node: the return code, and the state with what
  the callback has stored in \<^verbatim>\<open>v_new\<close>.\<close>

definition call_pts_fun :: "nat \<Rightarrow> thread_args \<Rightarrow> int \<times> thread_args" where
  "call_pts_fun node sa =
     (let (rc, stored) =
            pts_fun sa (drop (node * Nd sa) (v_new sa)) (drop (node * Nc sa) (u sa))
              (drop (node * Nd sa) (v sa)) (drop (node * Nld sa) (ldata sa)) (gdata sa)
              (Ni sa + node) (tt sa)
      in (rc, sa\<lparr>v_new := write_at (v_new sa) (node * Nd sa) stored\<rparr>))"

text \<open>The body of the loop over \<^verbatim>\<open>j\<close> that recomputes every rate of a node from
  \<^verbatim>\<open>v_new\<close> at the time \<^verbatim>\<open>tt\<close>, and the update of the node around it.\<close>

definition full_refresh_entry ::
  "nat \<Rightarrow> nat \<Rightarrow> thread_args \<times> double \<Rightarrow> thread_args \<times> double" where
  "full_refresh_entry node j = (\<lambda>(sa, delta).
     (let old = t_rate sa ! (node * Nt sa + j);
          rate = propensity sa j node (v_new sa) (tt sa)
      in (sa\<lparr>t_rate := (t_rate sa)[node * Nt sa + j := rate],
             errcode := (if invalid_rate rate then SIMINF_ERR_INVALID_RATE else errcode sa)\<rparr>,
          delta + (rate - old))))"

definition full_refresh :: "nat \<Rightarrow> thread_args \<Rightarrow> thread_args" where
  "full_refresh node sa =
     (let (sa1, delta) = fold (full_refresh_entry node) [0..<Nt sa] (sa, 0);
          sa2 = sa1\<lparr>sum_t_rate := (sum_t_rate sa1)[node := sum_t_rate sa1 ! node + delta]\<rparr>
      in sa2\<lparr>update_node := (update_node sa2)[node := 0]\<rparr>)"

text \<open>The body of the loop over the nodes in step 4, and the loop with its \<^verbatim>\<open>break\<close>.\<close>

definition post_step_node :: "nat \<Rightarrow> thread_args \<Rightarrow> thread_args loop" where
  "post_step_node node sa =
     (let (rc, sa1) = call_pts_fun node sa
      in if rc < 0 then Break (sa1\<lparr>errcode := rc\<rparr>)
         else if rc > 0 \<or> update_node sa1 ! node \<noteq> 0 then Continue (full_refresh node sa1)
         else Continue sa1)"

fun post_step_nodes :: "nat list \<Rightarrow> thread_args \<Rightarrow> thread_args" where
  "post_step_nodes [] sa = sa"
| "post_step_nodes (node # nodes) sa =
     (case post_step_node node sa of
        Break sa' \<Rightarrow> sa'
      | Continue sa' \<Rightarrow> post_step_nodes nodes sa')"

definition post_time_step :: "thread_args \<Rightarrow> thread_args" where
  "post_time_step sa = post_step_nodes [0..<Nn sa] sa"

subsection \<open>Sampling into the dense outputs\<close>

text \<open>
  The loop \<^verbatim>\<open>while (sa.U && sa.U_it < sa.tlen && sa.tt > sa.tspan[sa.U_it])
  memcpy(&sa.U[sa.Nc * ((sa.Ntot * sa.U_it++) + sa.Ni)], sa.u, sa.Nn * sa.Nc * sizeof(int));\<close>
  for a non-null \<^verbatim>\<open>U\<close>, and the same loop for \<^verbatim>\<open>V\<close>, which copies from \<^verbatim>\<open>v_new\<close>.
\<close>

function store_U :: "thread_args \<Rightarrow> int list \<Rightarrow> thread_args \<times> int list" where
  "store_U sa Um =
     (if U_it sa < tlen sa \<and> tt sa > tspan sa ! U_it sa
      then store_U (sa\<lparr>U_it := U_it sa + 1\<rparr>)
             (memcpy Um (Nc sa * (Ntot sa * U_it sa + Ni sa)) (u sa) (Nn sa * Nc sa))
      else (sa, Um))"
  by pat_completeness auto
termination
  by (relation "measure (\<lambda>(sa, Um). tlen sa - U_it sa)") auto

function store_V :: "thread_args \<Rightarrow> double list \<Rightarrow> thread_args \<times> double list" where
  "store_V sa Vm =
     (if V_it sa < tlen sa \<and> tt sa > tspan sa ! V_it sa
      then store_V (sa\<lparr>V_it := V_it sa + 1\<rparr>)
             (memcpy Vm (Nd sa * (Ntot sa * V_it sa + Ni sa)) (v_new sa) (Nn sa * Nd sa))
      else (sa, Vm))"
  by pat_completeness auto
termination
  by (relation "measure (\<lambda>(sa, Vm). tlen sa - V_it sa)") auto

declare store_U.simps [simp del] store_V.simps [simp del]

definition sample_U :: "thread_args \<Rightarrow> int list option \<Rightarrow> thread_args \<times> int list option" where
  "sample_U sa Uo =
     (case Uo of None \<Rightarrow> (sa, None)
      | Some Um \<Rightarrow> (let (sa', Um') = store_U sa Um in (sa', Some Um')))"

definition sample_V :: "thread_args \<Rightarrow> double list option \<Rightarrow> thread_args \<times> double list option" where
  "sample_V sa Vo =
     (case Vo of None \<Rightarrow> (sa, None)
      | Some Vm \<Rightarrow> (let (sa', Vm') = store_V sa Vm in (sa', Some Vm')))"

text \<open>Steps 4 to 6a for one worker: the body of the second parallel loop.\<close>

definition post_phase ::
  "thread_args \<Rightarrow> int list option \<Rightarrow> double list option
     \<Rightarrow> thread_args \<times> int list option \<times> double list option" where
  "post_phase sa Uo Vo =
     (let sa1 = post_time_step sa;
          sa2 = sa1\<lparr>tt := next_day sa1\<rparr>;
          sa3 = sa2\<lparr>next_day := next_day sa2 + 1\<rparr>;
          (sa4, Uo') = sample_U sa3 Uo;
          (sa5, Vo') = sample_V sa4 Vo
      in (sa5, Uo', Vo'))"

subsection \<open>Scheduled events and the sparse sink\<close>

text \<open>
  Modelled from the spec: \<^verbatim>\<open>SimInf_process_E1_events\<close>, \<^verbatim>\<open>SimInf_process_E2_events\<close>,
  \<^verbatim>\<open>SimInf_store_solution_sparse\<close> and \<^verbatim>\<open>SimInf_split_events\<close> are called by the solver
  but are not among the sources. By sections 4.4 and 4.5 of the specification the
  processing of an event changes compartment counts and \<^verbatim>\<open>update_node\<close> flags, can set
  the error code, and samples with the generator of the worker; by section 6 the sparse
  output is taken only for a matrix whose dense output is absent. What these functions
  compute is a parameter of the model: \<open>process_E1\<close> gives the effect of the E1 events
  of the day on a worker, \<open>process_E2\<close> the effect of the E2 events on worker \<open>k\<close>,
  \<open>store_sparse\<close> the workers after the sparse sink, and \<open>split_events\<close> the return
  code of the event splitter. An effect consists of the new counts, the new flags, the
  generator after the sampling, and the error that the events set, which is 0 if they
  set none: events set an error code and never clear one (section 4.4, step 4, and
  section 7).

  Two more parameters stand for what lies outside the repository. \<open>worker_rng seed i\<close> is
  the generator of worker \<open>i\<close>: the Mersenne twister of the GNU Scientific Library,
  seeded with the \<open>i\<close>-th number that the master generator delivers after it has been
  seeded with \<open>seed\<close>. \<open>uninitialised\<close> is the value found in memory that \<^verbatim>\<open>malloc\<close>
  returns. Allocation is taken to succeed.
\<close>

record event_effect =
  ev_u :: "int list"
  ev_update_node :: "int list"
  ev_errcode :: int
  ev_rng :: "double stream"

record environment =
  process_E1 :: "thread_args \<Rightarrow> event_effect"
  process_E2 :: "thread_args list \<Rightarrow> nat \<Rightarrow> event_effect"
  store_sparse :: "thread_args list \<Rightarrow> thread_args list"
  split_events :: int
  worker_rng :: "nat \<Rightarrow> nat \<Rightarrow> double stream"
  uninitialised :: double

definition apply_event_effect :: "event_effect \<Rightarrow> thread_args \<Rightarrow> thread_args" where
  "apply_event_effect ev sa =
     sa\<lparr>u := ev_u ev, update_node := ev_update_node ev,
        errcode := (if ev_errcode ev \<noteq> 0 then ev_errcode ev else errcode sa),
        rng := ev_rng ev\<rparr>"

subsection \<open>The solver \<^verbatim>\<open>SimInf_solver_ssa\<close>\<close>

text \<open>
  The workers of an OpenMP loop run in the order of their index. In steps 1, 4, 5 and 6
  a worker reads and writes its own record and its own columns of the outputs only, so
  the order does not change the result of these steps.

  The first parallel loop: steps 1 and 2 for every worker.
\<close>

fun ssa_all :: "environment \<Rightarrow> nat \<Rightarrow> thread_args list \<Rightarrow> thread_args list option" where
  "ssa_all h fuel [] = Some []"
| "ssa_all h fuel (sa # sas) =
     (case ssa_phase fuel sa of
        None \<Rightarrow> None
      | Some sa' \<Rightarrow>
          (case ssa_all h fuel sas of
             None \<Rightarrow> None
           | Some sas' \<Rightarrow> Some (apply_event_effect (process_E1 h sa') sa' # sas')))"

text \<open>Step 3, by the master thread.\<close>

definition E2_all :: "environment \<Rightarrow> thread_args list \<Rightarrow> thread_args list" where
  "E2_all h sim_args =
     map (\<lambda>k. apply_event_effect (process_E2 h sim_args k) (sim_args ! k)) [0..<length sim_args]"

text \<open>The second parallel loop.\<close>

fun post_all ::
  "thread_args list \<Rightarrow> int list option \<Rightarrow> double list option
     \<Rightarrow> thread_args list \<times> int list option \<times> double list option" where
  "post_all [] Uo Vo = ([], Uo, Vo)"
| "post_all (sa # sas) Uo Vo =
     (let (sa', Uo1, Vo1) = post_phase sa Uo Vo;
          (sas', Uo2, Vo2) = post_all sas Uo1 Vo1
      in (sa' # sas', Uo2, Vo2))"

text \<open>
  The loop that swaps \<^verbatim>\<open>v\<close> and \<^verbatim>\<open>v_new\<close> of every worker and returns at the first
  worker whose error code is set: the workers, and that error code or 0.
\<close>

definition swap_v :: "thread_args \<Rightarrow> thread_args" where
  "swap_v sa = sa\<lparr>v := v_new sa, v_new := v sa\<rparr>"

fun swap_and_check :: "thread_args list \<Rightarrow> thread_args list \<times> int" where
  "swap_and_check [] = ([], 0)"
| "swap_and_check (sa # sas) =
     (if errcode (swap_v sa) \<noteq> 0 then (swap_v sa # sas, errcode (swap_v sa))
      else (let (sas', e) = swap_and_check sas in (swap_v sa # sas', e)))"

text \<open>The main loop, with fuel for the days; \<open>fuel\<close> is the fuel of every node loop.\<close>

fun main_loop ::
  "environment \<Rightarrow> nat \<Rightarrow> nat \<Rightarrow> thread_args list \<Rightarrow> int list option \<Rightarrow> double list option
     \<Rightarrow> (int \<times> thread_args list \<times> int list option \<times> double list option) option" where
  "main_loop h fuel 0 sim_args Uo Vo = None"
| "main_loop h fuel (Suc days) sim_args Uo Vo =
     (case ssa_all h fuel sim_args of
        None \<Rightarrow> None
      | Some s1 \<Rightarrow>
          (let s2 = E2_all h s1;
               (s3, Uo', Vo') = post_all s2 Uo Vo;
               s4 = (if Uo' = None \<or> Vo' = None then store_sparse h s3 else s3);
               (s5, e) = swap_and_check s4
           in if e \<noteq> 0 then Some (e, s5, Uo', Vo')
              else if U_it (s5 ! 0) \<ge> tlen (s5 ! 0) then Some (0, s5, Uo', Vo')
              else main_loop h fuel days s5 Uo' Vo'))"

text \<open>The check \<^verbatim>\<open>for (k = 0; k < Nthread; k++) if (sim_args[k].errcode)
  return sim_args[k].errcode;\<close>: the error code it returns, or 0 if it returns none.\<close>

fun first_errcode :: "thread_args list \<Rightarrow> int" where
  "first_errcode [] = 0"
| "first_errcode (sa # sas) = (if errcode sa \<noteq> 0 then errcode sa else first_errcode sas)"

definition SimInf_solver_ssa ::
  "environment \<Rightarrow> nat \<Rightarrow> nat \<Rightarrow> thread_args list \<Rightarrow> int list option \<Rightarrow> double list option
     \<Rightarrow> (int \<times> thread_args list \<times> int list option \<times> double list option) option" where
  "SimInf_solver_ssa h fuel days sim_args Uo Vo =
     (let s0 = map init_worker sim_args
      in if first_errcode s0 \<noteq> 0 then Some (first_errcode s0, s0, Uo, Vo)
         else main_loop h fuel days s0 Uo Vo)"

subsection \<open>The entry point \<^verbatim>\<open>SimInf_run_solver_ssa\<close>\<close>

text \<open>The fields of \<^verbatim>\<open>SimInf_solver_args\<close> that the solver reads.\<close>

record solver_args =
  args_u0 :: "int list"
  args_v0 :: "double list"
  args_irG :: "nat list"
  args_jcG :: "nat list"
  args_irS :: "nat list"
  args_jcS :: "nat list"
  args_prS :: "int list"
  args_tspan :: "double list"
  args_tlen :: nat
  args_U :: "int list option"
  args_V :: "double list option"
  args_ldata :: "double list"
  args_gdata :: "double list"
  args_Nn :: nat
  args_Nc :: nat
  args_Nt :: nat
  args_Nd :: nat
  args_Nld :: nat
  args_Nthread :: nat
  args_seed :: nat
  args_tr_fun :: "PropensityFun list"
  args_pts_fun :: PostTimeStepFun

text \<open>
  The body of the loop that fills \<^verbatim>\<open>sim_args[i]\<close>. The buffers \<^verbatim>\<open>uu\<close> and \<^verbatim>\<open>vv_1\<close> hold
  copies of \<^verbatim>\<open>u0\<close> and \<^verbatim>\<open>v0\<close>, \<^verbatim>\<open>update_node\<close> is zeroed by \<^verbatim>\<open>calloc\<close>, as is the
  error code, and \<^verbatim>\<open>vv_2\<close> and the three rate buffers are uninitialised.
\<close>

definition setup_worker :: "environment \<Rightarrow> solver_args \<Rightarrow> nat \<Rightarrow> thread_args" where
  "setup_worker env args i =
     (let ni = i * (args_Nn args div args_Nthread args);
          nn = args_Nn args div args_Nthread args
                 + (if i = args_Nthread args - 1 then args_Nn args mod args_Nthread args else 0);
          uu = take (args_Nn args * args_Nc args) (args_u0 args);
          vv_1 = take (args_Nn args * args_Nd args) (args_v0 args);
          vv_2 = replicate (args_Nn args * args_Nd args) (uninitialised env)
      in \<lparr>rng = worker_rng env (args_seed args) i,
          Ntot = args_Nn args, Ni = ni, Nn = nn,
          Nt = args_Nt args, Nc = args_Nc args, Nd = args_Nd args, Nld = args_Nld args,
          irG = args_irG args, jcG = args_jcG args,
          irS = args_irS args, jcS = args_jcS args, prS = args_prS args,
          tr_fun = args_tr_fun args, pts_fun = args_pts_fun args,
          tt = args_tspan args ! 0, next_day = floor_double (args_tspan args ! 0) + 1,
          tspan = args_tspan args, tlen = args_tlen args,
          U_it = 1, V_it = 1,
          u = take (nn * args_Nc args) (drop (ni * args_Nc args) uu),
          v = take (nn * args_Nd args) (drop (ni * args_Nd args) vv_1),
          v_new = take (nn * args_Nd args) (drop (ni * args_Nd args) vv_2),
          ldata = take (nn * args_Nld args) (drop (ni * args_Nld args) (args_ldata args)),
          gdata = args_gdata args,
          update_node = replicate nn 0,
          t_rate = replicate (args_Nt args * nn) (uninitialised env),
          sum_t_rate = replicate nn (uninitialised env),
          t_time = replicate nn (uninitialised env),
          errcode = 0\<rparr>)"

text \<open>
  The entry point: the initial state goes to column 0 of the dense outputs, the workers
  are set up, and the solver runs unless the event splitter fails. The result is the
  return code and the dense outputs.
\<close>

definition SimInf_run_solver_ssa ::
  "environment \<Rightarrow> nat \<Rightarrow> nat \<Rightarrow> solver_args
     \<Rightarrow> (int \<times> int list option \<times> double list option) option" where
  "SimInf_run_solver_ssa env fuel days args =
     (let Uo = map_option (\<lambda>Um. memcpy Um 0 (args_u0 args) (args_Nn args * args_Nc args))
                 (args_U args);
          Vo = map_option (\<lambda>Vm. memcpy Vm 0 (args_v0 args) (args_Nn args * args_Nd args))
                 (args_V args);
          sim_args = map (setup_worker env args) [0..<args_Nthread args]
      in if split_events env \<noteq> 0 then Some (split_events env, Uo, Vo)
         else map_option (\<lambda>(e, s, Uo', Vo'). (e, Uo', Vo'))
                (SimInf_solver_ssa env fuel days sim_args Uo Vo))"

text \<open>
  The value of \<^verbatim>\<open>cum\<close> in the scan when the loop variable is \<open>tr\<close>: the rates of the
  node from index 0 to \<open>tr\<close>, added from the left.
\<close>

fun cum_rate :: "double list \<Rightarrow> nat \<Rightarrow> nat \<Rightarrow> double" where
  "cum_rate rates base 0 = rates ! base"
| "cum_rate rates base (Suc tr) = cum_rate rates base tr + rates ! (base + Suc tr)"

text \<open>
  In the words of the specification, the scan picks ``the first index whose cumulative
  sum exceeds \<open>r\<close>''; this is that index, or \<open>n\<close> when no cumulative sum exceeds
  \<open>r\<close>. It is compared with \<open>scan\<close> below.
\<close>

definition first_exceeding :: "double list \<Rightarrow> nat \<Rightarrow> nat \<Rightarrow> double \<Rightarrow> nat" where
  "first_exceeding rates base n r =
     (case find (\<lambda>k. cum_rate rates base k > r) [0..<n] of Some k \<Rightarrow> k | None \<Rightarrow> n)"

text \<open>
  The entry in row \<open>r\<close> and column \<open>c\<close> of a sparse matrix in compressed column form
  \<open>(ir, jc, pr)\<close>: column \<open>c\<close> spans the positions \<open>jc[c]\<close> to \<open>jc[c+1] - 1\<close>, and a row
  that is not listed holds 0.
\<close>

definition csc_column :: "nat list \<Rightarrow> nat \<Rightarrow> nat list" where
  "csc_column jc c = [jc ! c..<jc ! (c + 1)]"

definition csc_entry :: "nat list \<Rightarrow> nat list \<Rightarrow> int list \<Rightarrow> nat \<Rightarrow> nat \<Rightarrow> int" where
  "csc_entry ir jc pr r c = sum_list (map (\<lambda>j. pr ! j) (filter (\<lambda>j. ir ! j = r) (csc_column jc c)))"

text \<open>
  The value that step 1d computes for propensity \<open>i\<close> of a node: the propensity
  function called on the counts and the continuous state \<^verbatim>\<open>v\<close> of the node at the
  time \<^verbatim>\<open>t_time[node]\<close>.
\<close>

definition refreshed :: "thread_args \<Rightarrow> nat \<Rightarrow> nat \<Rightarrow> double" where
  "refreshed sa node i = propensity sa i node (v sa) (t_time sa ! node)"

text \<open>
  The value that the full refresh of step 4 computes for propensity \<open>j\<close> of a node:
  the propensity function called on the counts and on \<^verbatim>\<open>v_new\<close> of the node at the
  time \<^verbatim>\<open>tt\<close>.
\<close>

definition recomputed :: "thread_args \<Rightarrow> nat \<Rightarrow> nat \<Rightarrow> double" where
  "recomputed sa node j = propensity sa j node (v_new sa) (tt sa)"

text \<open>
  What fixes where a worker writes into the dense outputs: the number of nodes of the
  model, the sizes of a node's two state vectors, and the two sample cursors.
\<close>

definition layout :: "thread_args \<Rightarrow> nat \<times> nat \<times> nat \<times> nat \<times> nat" where
  "layout sa = (Ntot sa, Nc sa, Nd sa, U_it sa, V_it sa)"

definition cursors_ok :: "nat \<Rightarrow> nat \<Rightarrow> nat \<Rightarrow> thread_args \<Rightarrow> bool" where
  "cursors_ok N C D sa \<longleftrightarrow>
     Ntot sa = N \<and> Nc sa = C \<and> Nd sa = D \<and> 1 \<le> U_it sa \<and> 1 \<le> V_it sa"

text \<open>
  The value that the initialisation computes for propensity \<open>j\<close> of a node: the
  propensity function called on the counts and on \<^verbatim>\<open>v\<close> of the node at the time \<^verbatim>\<open>tt\<close>.
\<close>

definition initial_rate :: "thread_args \<Rightarrow> nat \<Rightarrow> nat \<Rightarrow> double" where
  "initial_rate sa node j = propensity sa j node (v sa) (tt sa)"

text \<open>The state a loop body ends in, whichever way it ends.\<close>

fun loop_state :: "'a loop \<Rightarrow> 'a" where
  "loop_state (Break s) = s"
| "loop_state (Continue s) = s"

subsection \<open>Example inputs\<close>

text \<open>
  An SIS model on one node with the compartments S and I, the propensities of
  \<^verbatim>\<open>src/models/SISe.c\<close> (without the sub-domain argument of that older interface), and
  a post-timestep callback that stores a constant and reports no change. In the CSC
  matrices, transition 0 moves one individual from S to I and transition 1 moves one
  back; each transition invalidates both propensities.
\<close>

definition sis_S_to_I :: PropensityFun where
  "sis_S_to_I us vs ld gd t = gd ! 0 * vs ! 0 * Fin (of_int (us ! 0))"

definition sis_I_to_S :: PropensityFun where
  "sis_I_to_S us vs ld gd t = gd ! 1 * Fin (of_int (us ! 1))"

definition sis_post_time_step :: PostTimeStepFun where
  "sis_post_time_step vnew us vs ld gd node t = (0, Fin 1 # tl vnew)"

definition sis_args :: thread_args where
  "sis_args =
     \<lparr>rng = sconst (Fin (1/2)), Ntot = 1, Ni = 0, Nn = 1, Nt = 2, Nc = 2, Nd = 1, Nld = 0,
      irG = [0, 1, 0, 1], jcG = [0, 2, 4],
      irS = [0, 1, 0, 1], jcS = [0, 2, 4], prS = [- 1, 1, 1, - 1],
      tr_fun = [sis_S_to_I, sis_I_to_S], pts_fun = sis_post_time_step,
      tt = Fin 0, next_day = Fin 1, tspan = [Fin 0, Fin 1, Fin 2], tlen = 3,
      U_it = 1, V_it = 1,
      u = [1, 1], v = [Fin 1], v_new = [Fin 0], ldata = [], gdata = [Fin 1, Fin 1],
      update_node = [0],
      t_rate = [Fin 1, Fin 1], sum_t_rate = [Fin 2], t_time = [Fin 0], errcode = 0\<rparr>"

text \<open>
  The same worker with both cached rates zero but the cached sum 1, as the sum is after
  it has drifted from the rates by rounding.
\<close>

definition nil_args :: thread_args where
  "nil_args = sis_args\<lparr>t_rate := [Fin 0, Fin 0], sum_t_rate := [Fin 1]\<rparr>"

text \<open>
  An environment without scheduled events, whose generators deliver \<open>1/2\<close> forever,
  and the arguments of a run of the SIS model on one node with one worker, both
  propensities zero, and the sample times 0, 1 and 2.
\<close>

definition no_event :: "thread_args \<Rightarrow> event_effect" where
  "no_event sa =
     \<lparr>ev_u = u sa, ev_update_node = update_node sa, ev_errcode = 0, ev_rng = rng sa\<rparr>"

definition sis_env :: environment where
  "sis_env =
     \<lparr>process_E1 = no_event, process_E2 = (\<lambda>sim_args k. no_event (sim_args ! k)),
      store_sparse = (\<lambda>sim_args. sim_args), split_events = 0,
      worker_rng = (\<lambda>seed i. sconst (Fin (1/2))), uninitialised = Fin 0\<rparr>"

definition sis_solver_args :: solver_args where
  "sis_solver_args =
     \<lparr>args_u0 = [100, 0], args_v0 = [Fin 1],
      args_irG = [0, 1, 0, 1], args_jcG = [0, 2, 4],
      args_irS = [0, 1, 0, 1], args_jcS = [0, 2, 4], args_prS = [- 1, 1, 1, - 1],
      args_tspan = [Fin 0, Fin 1, Fin 2], args_tlen = 3,
      args_U = Some (replicate 6 0), args_V = Some (replicate 3 (Fin 0)),
      args_ldata = [], args_gdata = [Fin 0, Fin 0],
      args_Nn = 1, args_Nc = 2, args_Nt = 2, args_Nd = 1, args_Nld = 0,
      args_Nthread = 1, args_seed = 42,
      args_tr_fun = [sis_S_to_I, sis_I_to_S], args_pts_fun = sis_post_time_step\<rparr>"

text \<open>
  A model on two nodes with one worker whose only propensity is the continuous variable
  of the node, and a post-timestep callback that stores \<open>-1\<close> there, asks for a refresh
  in node 0 and fails in node 1 with a code of its own.
\<close>

definition phi_rate :: PropensityFun where
  "phi_rate us vs ld gd t = vs ! 0"

definition failing_post_time_step :: PostTimeStepFun where
  "failing_post_time_step vnew us vs ld gd node t =
     (if node = 0 then 1 else SIMINF_ERR_INVALID_RATE - 1, [Fin (- 1)])"

definition failing_args :: solver_args where
  "failing_args =
     \<lparr>args_u0 = [1, 1], args_v0 = [Fin 0, Fin 0],
      args_irG = [0], args_jcG = [0, 1],
      args_irS = [0], args_jcS = [0, 1], args_prS = [- 1],
      args_tspan = [Fin 0, Fin 1], args_tlen = 2,
      args_U = Some (replicate 4 0), args_V = Some (replicate 4 (Fin 0)),
      args_ldata = [], args_gdata = [],
      args_Nn = 2, args_Nc = 1, args_Nt = 1, args_Nd = 1, args_Nld = 0,
      args_Nthread = 1, args_seed = 42,
      args_tr_fun = [phi_rate], args_pts_fun = failing_post_time_step\<rparr>"

text \<open>
  The worker of this model as the entry point sets it up, its state after the stepping
  of the first day, and its state after the callback has run in node 0.
\<close>

definition failing_worker :: thread_args where
  "failing_worker =
     \<lparr>rng = sconst (Fin (1/2)), Ntot = 2, Ni = 0, Nn = 2, Nt = 1, Nc = 1, Nd = 1, Nld = 0,
      irG = [0], jcG = [0, 1], irS = [0], jcS = [0, 1], prS = [- 1],
      tr_fun = [phi_rate], pts_fun = failing_post_time_step,
      tt = Fin 0, next_day = Fin 1, tspan = [Fin 0, Fin 1], tlen = 2,
      U_it = 1, V_it = 1,
      u = [1, 1], v = [Fin 0, Fin 0], v_new = [Fin 0, Fin 0], ldata = [], gdata = [],
      update_node = [0, 0],
      t_rate = [Fin 0, Fin 0], sum_t_rate = [Fin 0, Fin 0], t_time = [Fin 0, Fin 0],
      errcode = 0\<rparr>"

definition failing_day :: thread_args where
  "failing_day = failing_worker\<lparr>t_time := [Fin 1, Fin 1]\<rparr>"

definition failing_called :: thread_args where
  "failing_called = failing_day\<lparr>v_new := [Fin (- 1), Fin 0]\<rparr>"

text \<open>
  A model on one node whose only propensity is 1 up to time 0 and not a number later,
  and whose transition changes no count: the arguments of the run, the worker after
  the initialisation, and the states that the loop of node 0 reaches after one step and
  after two steps.
\<close>

definition late_nan :: PropensityFun where
  "late_nan us vs ld gd t = (if t \<le> 0 then Fin 1 else NaN)"

definition nan_args :: solver_args where
  "nan_args =
     \<lparr>args_u0 = [1], args_v0 = [],
      args_irG = [0], args_jcG = [0, 1],
      args_irS = [], args_jcS = [0, 0], args_prS = [],
      args_tspan = [Fin 0, Fin 1], args_tlen = 2,
      args_U = Some (replicate 2 0), args_V = Some [],
      args_ldata = [], args_gdata = [],
      args_Nn = 1, args_Nc = 1, args_Nt = 1, args_Nd = 0, args_Nld = 0,
      args_Nthread = 1, args_seed = 42,
      args_tr_fun = [late_nan], args_pts_fun = sis_post_time_step\<rparr>"

definition nan_worker :: thread_args where
  "nan_worker =
     \<lparr>rng = sconst (Fin (1/2)), Ntot = 1, Ni = 0, Nn = 1, Nt = 1, Nc = 1, Nd = 0, Nld = 0,
      irG = [0], jcG = [0, 1], irS = [], jcS = [0, 0], prS = [],
      tr_fun = [late_nan], pts_fun = sis_post_time_step,
      tt = Fin 0, next_day = Fin 1, tspan = [Fin 0, Fin 1], tlen = 2,
      U_it = 1, V_it = 1,
      u = [1], v = [], v_new = [], ldata = [], gdata = [],
      update_node = [0],
      t_rate = [Fin 1], sum_t_rate = [Fin 1], t_time = [Fin 0],
      errcode = 0\<rparr>"

definition nan_hit :: thread_args where
  "nan_hit = nan_worker\<lparr>t_rate := [NaN], sum_t_rate := [NaN],
     t_time := [Fin (- ln (1/2))], errcode := SIMINF_ERR_INVALID_RATE\<rparr>"

definition nan_loop :: thread_args where
  "nan_loop = nan_worker\<lparr>t_rate := [NaN], sum_t_rate := [NaN], t_time := [NaN],
     errcode := SIMINF_ERR_INVALID_RATE\<rparr>"


section \<open>Properties\<close>

subsection \<open>What each loop leaves untouched\<close>

lemma update_state_fold_frame:
  "\<exists>u' e. fold (update_entry node) js sa = sa\<lparr>u := u', errcode := e\<rparr>"
proof (induction js arbitrary: sa)
  case Nil
  have "sa = sa\<lparr>u := u sa, errcode := errcode sa\<rparr>" by simp
  then show ?case by (metis fold_simps(1))
next
  case (Cons j js)
  obtain u' e where "fold (update_entry node) js (update_entry node j sa)
      = (update_entry node j sa)\<lparr>u := u', errcode := e\<rparr>"
    using Cons.IH by blast
  then have "fold (update_entry node) (j # js) sa = sa\<lparr>u := u', errcode := e\<rparr>"
    by (simp add: update_entry_def Let_def)
  then show ?case by blast
qed

lemma update_state_frame:
  "\<exists>u' e. update_state node tr sa = sa\<lparr>u := u', errcode := e\<rparr>"
  unfolding update_state_def by (rule update_state_fold_frame)

lemma refresh_fold_frame:
  "\<exists>r e d'. fold (refresh_entry node) js (sa, d) = (sa\<lparr>t_rate := r, errcode := e\<rparr>, d')"
proof (induction js arbitrary: sa d)
  case Nil
  have "sa = sa\<lparr>t_rate := t_rate sa, errcode := errcode sa\<rparr>" by simp
  then show ?case by (metis fold_simps(1))
next
  case (Cons j js)
  let ?s = "fst (refresh_entry node j (sa, d))" and ?d = "snd (refresh_entry node j (sa, d))"
  obtain r e d' where
    "fold (refresh_entry node) js (?s, ?d) = (?s\<lparr>t_rate := r, errcode := e\<rparr>, d')"
    using Cons.IH by blast
  then have "fold (refresh_entry node) (j # js) (sa, d) = (sa\<lparr>t_rate := r, errcode := e\<rparr>, d')"
    by (simp add: refresh_entry_def Let_def)
  then show ?case by blast
qed

lemma refresh_rates_frame:
  "\<exists>r e s. refresh_rates node tr sa = sa\<lparr>t_rate := r, errcode := e, sum_t_rate := s\<rparr>"
proof -
  obtain r e d' where
    "fold (refresh_entry node) [jcG sa ! tr..<jcG sa ! (tr + 1)] (sa, 0)
       = (sa\<lparr>t_rate := r, errcode := e\<rparr>, d')"
    using refresh_fold_frame by blast
  then show ?thesis
    by (simp add: refresh_rates_def) blast
qed

lemma update_state_fold_rng:
  "fold (update_entry node) js (sa\<lparr>rng := g\<rparr>) = (fold (update_entry node) js sa)\<lparr>rng := g\<rparr>"
proof (induction js arbitrary: sa)
  case Nil
  show ?case by simp
next
  case (Cons j js)
  have "update_entry node j (sa\<lparr>rng := g\<rparr>) = (update_entry node j sa)\<lparr>rng := g\<rparr>"
    by (simp add: update_entry_def Let_def)
  then show ?case
    by (simp only: fold_simps Cons.IH)
qed

lemma update_state_fold_t_time:
  "fold (update_entry node) js (sa\<lparr>t_time := ts\<rparr>)
     = (fold (update_entry node) js sa)\<lparr>t_time := ts\<rparr>"
proof (induction js arbitrary: sa)
  case Nil
  show ?case by simp
next
  case (Cons j js)
  have "update_entry node j (sa\<lparr>t_time := ts\<rparr>) = (update_entry node j sa)\<lparr>t_time := ts\<rparr>"
    by (simp add: update_entry_def Let_def)
  then show ?case
    by (simp only: fold_simps Cons.IH)
qed

lemma update_state_rng:
  "update_state node tr (sa\<lparr>rng := g\<rparr>) = (update_state node tr sa)\<lparr>rng := g\<rparr>"
  by (simp add: update_state_def update_state_fold_rng)

lemma update_state_t_time:
  "update_state node tr (sa\<lparr>t_time := ts\<rparr>) = (update_state node tr sa)\<lparr>t_time := ts\<rparr>"
  by (simp add: update_state_def update_state_fold_t_time)

lemma select_transition_rng_time:
  "select_transition (sa\<lparr>rng := g, t_time := ts\<rparr>) node rand = select_transition sa node rand"
  by (simp add: select_transition_def Let_def)

lemma select_transition_rng:
  "select_transition (sa\<lparr>rng := g\<rparr>) node rand = select_transition sa node rand"
  by (simp add: select_transition_def Let_def)

lemma draw_transition_time:
  "t_time (loop_state (draw_transition node sa)) = t_time sa"
proof (cases "select_transition (sa\<lparr>rng := stl (rng sa)\<rparr>) node
                (shd (rng sa) * sum_t_rate sa ! node)")
  case None
  then show ?thesis
    by (simp add: draw_transition_def gsl_rng_uniform_pos_def)
next
  case (Some tr)
  let ?s = "sa\<lparr>rng := stl (rng sa)\<rparr>"
  obtain u' e where us: "update_state node tr ?s = ?s\<lparr>u := u', errcode := e\<rparr>"
    using update_state_frame by blast
  obtain r e' s where "refresh_rates node tr (?s\<lparr>u := u', errcode := e\<rparr>)
      = ?s\<lparr>u := u', errcode := e, t_rate := r, errcode := e', sum_t_rate := s\<rparr>"
    using refresh_rates_frame by blast
  with Some us show ?thesis
    by (simp add: draw_transition_def gsl_rng_uniform_pos_def)
qed

lemma draw_transition_counts:
  assumes "select_transition sa node (shd (rng sa) * sum_t_rate sa ! node) = Some tr"
  shows "\<exists>sa'. draw_transition node sa = Continue sa' \<and> u sa' = u (update_state node tr sa)"
proof -
  let ?s = "sa\<lparr>rng := stl (rng sa)\<rparr>"
  have sel: "select_transition ?s node (shd (rng sa) * sum_t_rate sa ! node) = Some tr"
    using assms by (simp add: select_transition_rng)
  have "update_state node tr ?s = (update_state node tr sa)\<lparr>rng := stl (rng sa)\<rparr>"
    by (rule update_state_rng)
  moreover obtain r e s where
    "refresh_rates node tr (update_state node tr ?s)
       = (update_state node tr ?s)\<lparr>t_rate := r, errcode := e, sum_t_rate := s\<rparr>"
    using refresh_rates_frame by blast
  ultimately show ?thesis
    using sel by (simp add: draw_transition_def gsl_rng_uniform_pos_def)
qed

subsection \<open>Bounds on two logarithms, for the examples\<close>

lemma ln_half_bounds: "0 < - ln (1/2::real)" "- ln (1/2::real) < 1"
proof -
  have "ln (1/2::real) = - ln 2" by (simp add: ln_div)
  then show "0 < - ln (1/2::real)" "- ln (1/2::real) < 1"
    using ln_2_less_1 by simp_all
qed

lemma ln_third_bound: "1 \<le> - ln (1/3::real)"
proof -
  have "ln (1/3::real) = - ln 3" by (simp add: ln_div)
  moreover have "ln (exp 1) \<le> ln (3::real)"
    using exp_le by (subst ln_le_cancel_iff) simp_all
  ultimately show ?thesis by simp
qed

subsection \<open>C1: the waiting time of a step\<close>

lemma unit_open_log:
  assumes "unit_open x"
  shows "\<exists>r. x = Fin r \<and> 0 < r \<and> r < 1 \<and> log_double x = Fin (ln r) \<and> ln r < 0"
proof (cases x)
  case (Fin r)
  then have "0 < r" "r < 1" using assms by (simp_all add: unit_open_def zero_double_def one_double_def)
  then show ?thesis using Fin by simp
qed (use assms in \<open>simp_all add: unit_open_def zero_double_def one_double_def\<close>)

lemma uniform_pos_shd: "uniform_pos g \<Longrightarrow> unit_open (shd g)"
  by (simp add: uniform_pos_def shd_sset)

lemma uniform_pos_stl: "uniform_pos g \<Longrightarrow> uniform_pos (stl g)"
  by (auto simp: uniform_pos_def dest: stl_sset)

lemma uniform_pos_sconst: "unit_open x \<Longrightarrow> uniform_pos (sconst x)"
  by (simp add: uniform_pos_def)

lemma draw_transition_cases:
  "draw_transition node sa =
     (case select_transition sa node (shd (rng sa) * sum_t_rate sa ! node) of
        None \<Rightarrow> Break (sa\<lparr>rng := stl (rng sa), sum_t_rate := (sum_t_rate sa)[node := 0]\<rparr>)
      | Some tr \<Rightarrow> Continue (refresh_rates node tr (update_state node tr (sa\<lparr>rng := stl (rng sa)\<rparr>))))"
  by (cases "select_transition sa node (shd (rng sa) * sum_t_rate sa ! node)")
    (simp_all add: draw_transition_def gsl_rng_uniform_pos_def select_transition_rng)

lemma ssa_node_step:
  "ssa_step node sa = Break s \<Longrightarrow> ssa_node (Suc fuel) node sa = Some s"
  "ssa_step node sa = Continue s \<Longrightarrow> ssa_node (Suc fuel) node sa = ssa_node fuel node s"
  by simp_all

text \<open>
  C1 as stated fails at a nil event. In \<open>nil_args\<close> the sum of the rates of node 0 is
  1 and the variate is \<open>1/2\<close>, so the step is in the last case of the claim: the sum is
  positive and the waiting time \<open>-ln (1/2)\<close> ends before the next day. The time of the
  node is advanced, but both rates are zero, the draw finds no transition, and the
  loop is left with \<^verbatim>\<open>sum_t_rate[node]\<close> zeroed: no transition is applied, the counts
  are what they were, and the time of the node is not \<^verbatim>\<open>next_day\<close>.
\<close>

theorem nil_event_counterexample:
  "\<not> sum_t_rate nil_args ! 0 \<le> 0 \<and>
   - log_double (shd (rng nil_args)) / sum_t_rate nil_args ! 0 = Fin (- ln (1/2)) \<and>
   \<not> Fin (- ln (1/2)) + t_time nil_args ! 0 \<ge> next_day nil_args \<and>
   select_transition nil_args 0 (shd (stl (rng nil_args)) * sum_t_rate nil_args ! 0) = None \<and>
   ssa_step 0 nil_args
     = Break (nil_args\<lparr>t_time := [Fin (- ln (1/2))], sum_t_rate := [Fin 0]\<rparr>) \<and>
   u (loop_state (ssa_step 0 nil_args)) = u nil_args \<and>
   t_time (loop_state (ssa_step 0 nil_args)) \<noteq> [next_day nil_args]"
proof -
  have sel: "select_transition nil_args 0 (shd (stl (rng nil_args)) * sum_t_rate nil_args ! 0)
      = None"
    by (simp add: nil_args_def sis_args_def select_transition_def scan.simps zero_double_def)
  have step: "ssa_step 0 nil_args
      = Break (nil_args\<lparr>t_time := [Fin (- ln (1/2))], sum_t_rate := [Fin 0]\<rparr>)"
    using ln_half_bounds
    by (simp add: nil_args_def sis_args_def ssa_step_def draw_transition_def
        gsl_rng_uniform_pos_def select_transition_def scan.simps zero_double_def Let_def)
  have "\<not> sum_t_rate nil_args ! 0 \<le> 0"
    by (simp add: nil_args_def sis_args_def zero_double_def)
  moreover have "- log_double (shd (rng nil_args)) / sum_t_rate nil_args ! 0 = Fin (- ln (1/2))"
    by (simp add: nil_args_def sis_args_def)
  moreover have "\<not> Fin (- ln (1/2)) + t_time nil_args ! 0 \<ge> next_day nil_args"
    using ln_half_bounds by (simp add: nil_args_def sis_args_def)
  moreover have "u (loop_state (ssa_step 0 nil_args)) = u nil_args"
    by (simp add: step)
  moreover have "t_time (loop_state (ssa_step 0 nil_args)) \<noteq> [next_day nil_args]"
    using ln_half_bounds by (simp add: step) (simp add: nil_args_def sis_args_def)
  ultimately show ?thesis using sel step by (intro conjI)
qed

text \<open>
  C1, amended. One pass through the body of the inner loop for a node, with a generator
  whose variates lie in the open unit interval, where \<open>U1\<close> and \<open>U2\<close> are the next two
  variates and \<open>tau\<close> is \<^verbatim>\<open>-log(U1) / sum_t_rate[node]\<close>:
  \<^item> if \<^verbatim>\<open>sum_t_rate[node] <= 0\<close>, the loop is left, only \<^verbatim>\<open>t_time[node]\<close> has changed and
    it is \<^verbatim>\<open>next_day\<close>; no variate is drawn and the counts \<^verbatim>\<open>u\<close> are unchanged;
  \<^item> otherwise \<open>U1\<close> is drawn, and it lies in the open unit interval, so that its
    logarithm is finite and negative; if \<^verbatim>\<open>tau + t_time[node] >= next_day\<close>, the loop is
    left, \<^verbatim>\<open>t_time[node]\<close> is \<^verbatim>\<open>next_day\<close> and nothing else has changed;
  \<^item> otherwise \<^verbatim>\<open>t_time[node]\<close> is advanced by \<open>tau\<close> and stays so to the end of the
    step, and the step goes on with the transition draw (steps 1b to 1d) on that state:
    if the draw selects a transition \<open>tr\<close>, it is applied, that is, the loop continues
    with the state change of \<open>tr\<close> made and the rates refreshed; if the draw selects none
    (the nil event), the loop is left with \<^verbatim>\<open>sum_t_rate[node]\<close> set to 0 and nothing else
    changed: no transition is applied and the counts are what they were.
\<close>

theorem ssa_step_waiting_time:
  assumes "uniform_pos (rng sa)"
    and "U1 = shd (rng sa)" and "U2 = shd (stl (rng sa))"
    and "tau = - log_double U1 / sum_t_rate sa ! node"
    and "adv = sa\<lparr>rng := stl (stl (rng sa)),
                   t_time := (t_time sa)[node := t_time sa ! node + tau]\<rparr>"
  shows "(sum_t_rate sa ! node \<le> 0 \<longrightarrow>
            ssa_step node sa = Break (sa\<lparr>t_time := (t_time sa)[node := next_day sa]\<rparr>) \<and>
            ssa_node (Suc fuel) node sa
              = Some (sa\<lparr>t_time := (t_time sa)[node := next_day sa]\<rparr>)) \<and>
         unit_open U1 \<and> isfinite (log_double U1) \<and> log_double U1 < 0 \<and>
         (\<not> sum_t_rate sa ! node \<le> 0 \<and> tau + t_time sa ! node \<ge> next_day sa \<longrightarrow>
            ssa_step node sa =
              Break (sa\<lparr>rng := stl (rng sa), t_time := (t_time sa)[node := next_day sa]\<rparr>) \<and>
            ssa_node (Suc fuel) node sa =
              Some (sa\<lparr>rng := stl (rng sa), t_time := (t_time sa)[node := next_day sa]\<rparr>)) \<and>
         (\<not> sum_t_rate sa ! node \<le> 0 \<and> \<not> tau + t_time sa ! node \<ge> next_day sa \<longrightarrow>
            ssa_step node sa =
              draw_transition node
                (sa\<lparr>rng := stl (rng sa),
                    t_time := (t_time sa)[node := t_time sa ! node + tau]\<rparr>) \<and>
            t_time (loop_state (ssa_step node sa))
              = (t_time sa)[node := t_time sa ! node + tau] \<and>
            (\<forall>tr. select_transition sa node (U2 * sum_t_rate sa ! node) = Some tr
               \<longrightarrow> ssa_step node sa
                      = Continue (refresh_rates node tr (update_state node tr adv)) \<and>
                    ssa_node (Suc fuel) node sa
                      = ssa_node fuel node (refresh_rates node tr (update_state node tr adv)) \<and>
                    u (refresh_rates node tr (update_state node tr adv))
                      = u (update_state node tr sa)) \<and>
            (select_transition sa node (U2 * sum_t_rate sa ! node) = None
               \<longrightarrow> ssa_step node sa
                      = Break (adv\<lparr>sum_t_rate := (sum_t_rate sa)[node := 0]\<rparr>) \<and>
                    ssa_node (Suc fuel) node sa
                      = Some (adv\<lparr>sum_t_rate := (sum_t_rate sa)[node := 0]\<rparr>) \<and>
                    u (loop_state (ssa_step node sa)) = u sa))"
proof -
  let ?adv1 = "sa\<lparr>rng := stl (rng sa), t_time := (t_time sa)[node := t_time sa ! node + tau]\<rparr>"
  have u1: "unit_open U1" using assms(1,2) by (simp add: uniform_pos_shd)
  then obtain r where "U1 = Fin r" "log_double U1 = Fin (ln r)" "ln r < 0"
    using unit_open_log by blast
  then have lg: "isfinite (log_double U1)" "log_double U1 < 0"
    by (simp_all add: zero_double_def)
  have first: "sum_t_rate sa ! node \<le> 0 \<longrightarrow>
      ssa_step node sa = Break (sa\<lparr>t_time := (t_time sa)[node := next_day sa]\<rparr>)"
    by (simp add: ssa_step_def)
  have second: "\<not> sum_t_rate sa ! node \<le> 0 \<and> tau + t_time sa ! node \<ge> next_day sa \<longrightarrow>
      ssa_step node sa =
        Break (sa\<lparr>rng := stl (rng sa), t_time := (t_time sa)[node := next_day sa]\<rparr>)"
    using assms(2,4) by (simp add: ssa_step_def gsl_rng_uniform_pos_def)
  have third: "\<not> sum_t_rate sa ! node \<le> 0 \<and> \<not> tau + t_time sa ! node \<ge> next_day sa \<longrightarrow>
      ssa_step node sa = draw_transition node ?adv1 \<and>
      t_time (loop_state (ssa_step node sa)) = (t_time sa)[node := t_time sa ! node + tau] \<and>
      (\<forall>tr. select_transition sa node (U2 * sum_t_rate sa ! node) = Some tr
         \<longrightarrow> ssa_step node sa = Continue (refresh_rates node tr (update_state node tr adv)) \<and>
              u (refresh_rates node tr (update_state node tr adv)) = u (update_state node tr sa)) \<and>
      (select_transition sa node (U2 * sum_t_rate sa ! node) = None
         \<longrightarrow> ssa_step node sa = Break (adv\<lparr>sum_t_rate := (sum_t_rate sa)[node := 0]\<rparr>) \<and>
              u (loop_state (ssa_step node sa)) = u sa)"
  proof (intro impI)
    assume go: "\<not> sum_t_rate sa ! node \<le> 0 \<and> \<not> tau + t_time sa ! node \<ge> next_day sa"
    have step: "ssa_step node sa = draw_transition node ?adv1"
      using go assms(2,4) by (simp add: ssa_step_def gsl_rng_uniform_pos_def)
    have time: "t_time (loop_state (ssa_step node sa))
        = (t_time sa)[node := t_time sa ! node + tau]"
      using draw_transition_time [of node ?adv1] by (simp add: step)
    have sel: "select_transition ?adv1 node (shd (rng ?adv1) * sum_t_rate ?adv1 ! node)
        = select_transition sa node (U2 * sum_t_rate sa ! node)"
      using assms(3) by (simp add: select_transition_rng_time)
    have adv: "?adv1\<lparr>rng := stl (rng ?adv1)\<rparr> = adv"
      using assms(5) by simp
    have fire: "\<forall>tr. select_transition sa node (U2 * sum_t_rate sa ! node) = Some tr
         \<longrightarrow> ssa_step node sa = Continue (refresh_rates node tr (update_state node tr adv)) \<and>
              u (refresh_rates node tr (update_state node tr adv)) = u (update_state node tr sa)"
    proof (intro allI impI)
      fix tr
      assume s: "select_transition sa node (U2 * sum_t_rate sa ! node) = Some tr"
      have c: "ssa_step node sa = Continue (refresh_rates node tr (update_state node tr adv))"
        unfolding step draw_transition_cases [of node ?adv1] sel s adv by simp
      obtain r e s' where "refresh_rates node tr (update_state node tr adv)
          = (update_state node tr adv)\<lparr>t_rate := r, errcode := e, sum_t_rate := s'\<rparr>"
        using refresh_rates_frame by blast
      then have "u (refresh_rates node tr (update_state node tr adv))
          = u (update_state node tr adv)"
        by simp
      also have "\<dots> = u (update_state node tr sa)"
        unfolding assms(5) by (simp add: update_state_rng update_state_t_time)
      finally show "ssa_step node sa
            = Continue (refresh_rates node tr (update_state node tr adv)) \<and>
          u (refresh_rates node tr (update_state node tr adv)) = u (update_state node tr sa)"
        using c by simp
    qed
    have nil: "select_transition sa node (U2 * sum_t_rate sa ! node) = None
         \<longrightarrow> ssa_step node sa = Break (adv\<lparr>sum_t_rate := (sum_t_rate sa)[node := 0]\<rparr>) \<and>
              u (loop_state (ssa_step node sa)) = u sa"
    proof
      assume s: "select_transition sa node (U2 * sum_t_rate sa ! node) = None"
      have c: "ssa_step node sa = Break (adv\<lparr>sum_t_rate := (sum_t_rate sa)[node := 0]\<rparr>)"
        unfolding step draw_transition_cases [of node ?adv1] sel s
        using assms(5) by simp
      then show "ssa_step node sa = Break (adv\<lparr>sum_t_rate := (sum_t_rate sa)[node := 0]\<rparr>) \<and>
          u (loop_state (ssa_step node sa)) = u sa"
        using assms(5) by simp
    qed
    from step time fire nil
    show "ssa_step node sa = draw_transition node ?adv1 \<and>
      t_time (loop_state (ssa_step node sa)) = (t_time sa)[node := t_time sa ! node + tau] \<and>
      (\<forall>tr. select_transition sa node (U2 * sum_t_rate sa ! node) = Some tr
         \<longrightarrow> ssa_step node sa = Continue (refresh_rates node tr (update_state node tr adv)) \<and>
              u (refresh_rates node tr (update_state node tr adv)) = u (update_state node tr sa)) \<and>
      (select_transition sa node (U2 * sum_t_rate sa ! node) = None
         \<longrightarrow> ssa_step node sa = Break (adv\<lparr>sum_t_rate := (sum_t_rate sa)[node := 0]\<rparr>) \<and>
              u (loop_state (ssa_step node sa)) = u sa)"
      by (intro conjI)
  qed
  have first': "sum_t_rate sa ! node \<le> 0 \<longrightarrow>
      ssa_step node sa = Break (sa\<lparr>t_time := (t_time sa)[node := next_day sa]\<rparr>) \<and>
      ssa_node (Suc fuel) node sa = Some (sa\<lparr>t_time := (t_time sa)[node := next_day sa]\<rparr>)"
    using first ssa_node_step(1) [of node sa _ fuel] by blast
  have second': "\<not> sum_t_rate sa ! node \<le> 0 \<and> tau + t_time sa ! node \<ge> next_day sa \<longrightarrow>
      ssa_step node sa =
        Break (sa\<lparr>rng := stl (rng sa), t_time := (t_time sa)[node := next_day sa]\<rparr>) \<and>
      ssa_node (Suc fuel) node sa =
        Some (sa\<lparr>rng := stl (rng sa), t_time := (t_time sa)[node := next_day sa]\<rparr>)"
    using second ssa_node_step(1) [of node sa _ fuel] by blast
  have third': "\<not> sum_t_rate sa ! node \<le> 0 \<and> \<not> tau + t_time sa ! node \<ge> next_day sa \<longrightarrow>
      ssa_step node sa = draw_transition node ?adv1 \<and>
      t_time (loop_state (ssa_step node sa)) = (t_time sa)[node := t_time sa ! node + tau] \<and>
      (\<forall>tr. select_transition sa node (U2 * sum_t_rate sa ! node) = Some tr
         \<longrightarrow> ssa_step node sa = Continue (refresh_rates node tr (update_state node tr adv)) \<and>
              ssa_node (Suc fuel) node sa
                = ssa_node fuel node (refresh_rates node tr (update_state node tr adv)) \<and>
              u (refresh_rates node tr (update_state node tr adv)) = u (update_state node tr sa)) \<and>
      (select_transition sa node (U2 * sum_t_rate sa ! node) = None
         \<longrightarrow> ssa_step node sa = Break (adv\<lparr>sum_t_rate := (sum_t_rate sa)[node := 0]\<rparr>) \<and>
              ssa_node (Suc fuel) node sa
                = Some (adv\<lparr>sum_t_rate := (sum_t_rate sa)[node := 0]\<rparr>) \<and>
              u (loop_state (ssa_step node sa)) = u sa)"
    using third ssa_node_step(1) [of node sa _ fuel] ssa_node_step(2) [of node sa _ fuel]
    by blast
  from first' u1 lg second' third' show ?thesis by (intro conjI)
qed

theorem ssa_step_waiting_time_witness:
  "ssa_step 0 (sis_args\<lparr>u := [1, 0], gdata := [Fin 0, Fin 1], t_rate := [Fin 0, Fin 0],
                       sum_t_rate := [Fin 0]\<rparr>)
     = Break (sis_args\<lparr>u := [1, 0], gdata := [Fin 0, Fin 1], t_rate := [Fin 0, Fin 0],
                       sum_t_rate := [Fin 0],
                      t_time := [Fin 1]\<rparr>) \<and>
   ssa_step 0 (sis_args\<lparr>rng := sconst (Fin (1/3)), u := [1, 0], t_rate := [Fin 1, Fin 0],
                       sum_t_rate := [Fin 1]\<rparr>)
     = Break (sis_args\<lparr>rng := sconst (Fin (1/3)), u := [1, 0], t_rate := [Fin 1, Fin 0],
                      sum_t_rate := [Fin 1], t_time := [Fin 1]\<rparr>) \<and>
   unit_open (shd (rng sis_args)) \<and>
   t_time (loop_state (ssa_step 0 sis_args)) = [Fin (- ln (1/2) / 2)] \<and>
   (\<exists>sa'. ssa_step 0 sis_args = Continue sa' \<and> u sa' = [0, 2]) \<and>
   ssa_step 0 nil_args
     = Break (nil_args\<lparr>t_time := [Fin (- ln (1/2))], sum_t_rate := [Fin 0]\<rparr>) \<and>
   ssa_node (Suc 0) 0 nil_args
     = Some (nil_args\<lparr>t_time := [Fin (- ln (1/2))], sum_t_rate := [Fin 0]\<rparr>) \<and>
   u (loop_state (ssa_step 0 nil_args)) = u nil_args"
proof -
  define a where "a = sis_args\<lparr>u := [1, 0], gdata := [Fin 0, Fin 1], t_rate := [Fin 0, Fin 0],
                       sum_t_rate := [Fin 0]\<rparr>"
  define b where "b = sis_args\<lparr>rng := sconst (Fin (1/3)), u := [1, 0],
                       t_rate := [Fin 1, Fin 0], sum_t_rate := [Fin 1]\<rparr>"
  have half: "unit_open (Fin (1/2))" and third: "unit_open (Fin (1/3))"
    by (simp_all add: unit_open_def zero_double_def one_double_def)
  have upa: "uniform_pos (rng a)" and upb: "uniform_pos (rng b)"
    and ups: "uniform_pos (rng sis_args)" and upn: "uniform_pos (rng nil_args)"
    using half third
    by (simp_all add: a_def b_def nil_args_def sis_args_def uniform_pos_sconst)
  \<comment> \<open>no rate: the loop is left at once\<close>
  define taua where "taua = - log_double (shd (rng a)) / sum_t_rate a ! 0"
  define adva where "adva = a\<lparr>rng := stl (stl (rng a)),
      t_time := (t_time a)[0 := t_time a ! 0 + taua]\<rparr>"
  have a1: "sum_t_rate a ! 0 \<le> 0" by (simp add: a_def sis_args_def zero_double_def)
  have "sum_t_rate a ! 0 \<le> 0 \<longrightarrow>
      ssa_step 0 a = Break (a\<lparr>t_time := (t_time a)[0 := next_day a]\<rparr>)"
    using ssa_step_waiting_time [OF upa refl refl taua_def adva_def] by blast
  then have "ssa_step 0 a = Break (a\<lparr>t_time := (t_time a)[0 := next_day a]\<rparr>)"
    using a1 by blast
  then have ra: "ssa_step 0 a = Break (a\<lparr>t_time := [Fin 1]\<rparr>)"
    by (simp add: a_def sis_args_def)
  \<comment> \<open>the waiting time reaches the next day\<close>
  define taub where "taub = - log_double (shd (rng b)) / sum_t_rate b ! 0"
  define advb where "advb = b\<lparr>rng := stl (stl (rng b)),
      t_time := (t_time b)[0 := t_time b ! 0 + taub]\<rparr>"
  have tb: "taub = Fin (- ln (1/3))" by (simp add: taub_def b_def sis_args_def)
  have b1: "\<not> sum_t_rate b ! 0 \<le> 0 \<and> taub + t_time b ! 0 \<ge> next_day b"
    using ln_third_bound by (simp add: tb) (simp add: b_def sis_args_def zero_double_def)
  have "\<not> sum_t_rate b ! 0 \<le> 0 \<and> taub + t_time b ! 0 \<ge> next_day b \<longrightarrow>
      ssa_step 0 b = Break (b\<lparr>rng := stl (rng b), t_time := (t_time b)[0 := next_day b]\<rparr>)"
    using ssa_step_waiting_time [OF upb refl refl taub_def advb_def] by blast
  then have "ssa_step 0 b
      = Break (b\<lparr>rng := stl (rng b), t_time := (t_time b)[0 := next_day b]\<rparr>)"
    using b1 by blast
  then have rb: "ssa_step 0 b = Break (b\<lparr>t_time := [Fin 1]\<rparr>)"
    by (simp add: b_def sis_args_def)
  \<comment> \<open>a transition fires\<close>
  define tau where "tau = - log_double (shd (rng sis_args)) / sum_t_rate sis_args ! 0"
  define adv where "adv = sis_args\<lparr>rng := stl (stl (rng sis_args)),
      t_time := (t_time sis_args)[0 := t_time sis_args ! 0 + tau]\<rparr>"
  have tv: "tau = Fin (- ln (1/2) / 2)"
    by (simp add: tau_def sis_args_def)
  have go: "\<not> sum_t_rate sis_args ! 0 \<le> 0 \<and> \<not> tau + t_time sis_args ! 0 \<ge> next_day sis_args"
    using ln_half_bounds by (simp add: tv) (simp add: sis_args_def zero_double_def)
  note th = ssa_step_waiting_time [OF ups refl refl tau_def adv_def]
  from th have c0: "unit_open (shd (rng sis_args))" by blast
  from th go have c1: "t_time (loop_state (ssa_step 0 sis_args))
      = (t_time sis_args)[0 := t_time sis_args ! 0 + tau]"
    by blast
  have c1': "(t_time sis_args)[0 := t_time sis_args ! 0 + tau] = [Fin (- ln (1/2) / 2)]"
    by (simp add: tv sis_args_def)
  from th go have c2: "\<forall>tr. select_transition sis_args 0
        (shd (stl (rng sis_args)) * sum_t_rate sis_args ! 0) = Some tr
      \<longrightarrow> ssa_step 0 sis_args = Continue (refresh_rates 0 tr (update_state 0 tr adv)) \<and>
          u (refresh_rates 0 tr (update_state 0 tr adv)) = u (update_state 0 tr sis_args)"
    by blast
  have sel: "select_transition sis_args 0 (shd (stl (rng sis_args)) * sum_t_rate sis_args ! 0)
      = Some 0"
    by (simp add: select_transition_def sis_args_def scan.simps zero_double_def)
  have upd: "u (update_state 0 0 sis_args) = [0, 2]"
    by (simp add: update_state_def update_entry_def sis_args_def upt_rec Let_def)
  from c2 sel upd have c3: "\<exists>sa'. ssa_step 0 sis_args = Continue sa' \<and> u sa' = [0, 2]"
    by simp
  \<comment> \<open>the nil event\<close>
  define taun where "taun = - log_double (shd (rng nil_args)) / sum_t_rate nil_args ! 0"
  define advn where "advn = nil_args\<lparr>rng := stl (stl (rng nil_args)),
      t_time := (t_time nil_args)[0 := t_time nil_args ! 0 + taun]\<rparr>"
  have tn: "taun = Fin (- ln (1/2))"
    by (simp add: taun_def nil_args_def sis_args_def)
  have gon: "\<not> sum_t_rate nil_args ! 0 \<le> 0 \<and>
      \<not> taun + t_time nil_args ! 0 \<ge> next_day nil_args"
    using ln_half_bounds by (simp add: tn) (simp add: nil_args_def sis_args_def zero_double_def)
  have seln: "select_transition nil_args 0
      (shd (stl (rng nil_args)) * sum_t_rate nil_args ! 0) = None"
    by (simp add: nil_args_def sis_args_def select_transition_def scan.simps zero_double_def)
  note tn' = ssa_step_waiting_time [OF upn refl refl taun_def advn_def]
  from tn' gon have "select_transition nil_args 0
        (shd (stl (rng nil_args)) * sum_t_rate nil_args ! 0) = None
      \<longrightarrow> ssa_step 0 nil_args
            = Break (advn\<lparr>sum_t_rate := (sum_t_rate nil_args)[0 := 0]\<rparr>) \<and>
          u (loop_state (ssa_step 0 nil_args)) = u nil_args"
    by blast
  with seln have d: "ssa_step 0 nil_args
        = Break (advn\<lparr>sum_t_rate := (sum_t_rate nil_args)[0 := 0]\<rparr>)"
      "u (loop_state (ssa_step 0 nil_args)) = u nil_args"
    by blast+
  from tn' [of 0] gon have "select_transition nil_args 0
        (shd (stl (rng nil_args)) * sum_t_rate nil_args ! 0) = None
      \<longrightarrow> ssa_node (Suc 0) 0 nil_args
            = Some (advn\<lparr>sum_t_rate := (sum_t_rate nil_args)[0 := 0]\<rparr>)"
    by blast
  with seln have d2: "ssa_node (Suc 0) 0 nil_args
        = Some (advn\<lparr>sum_t_rate := (sum_t_rate nil_args)[0 := 0]\<rparr>)"
    by blast
  have d': "advn\<lparr>sum_t_rate := (sum_t_rate nil_args)[0 := 0]\<rparr>
      = nil_args\<lparr>t_time := [Fin (- ln (1/2))], sum_t_rate := [Fin 0]\<rparr>"
    by (simp add: advn_def tn) (simp add: nil_args_def sis_args_def zero_double_def)
  from ra rb c0 c1 c1' c3 d d2 d' show ?thesis
    unfolding a_def b_def by simp
qed

lemma scan_spec:
  assumes "cum = cum_rate rates base tr" and "tr \<le> n"
  shows "tr \<le> scan rates base n rand tr cum \<and> scan rates base n rand tr cum \<le> n \<and>
         (\<forall>k. tr \<le> k \<and> k < scan rates base n rand tr cum \<longrightarrow> rand > cum_rate rates base k) \<and>
         (scan rates base n rand tr cum < n \<longrightarrow>
            \<not> rand > cum_rate rates base (scan rates base n rand tr cum))"
  using assms
proof (induction rates base n rand tr cum rule: scan.induct)
  case (1 rates base n rand tr cum)
  show ?case
  proof (cases "tr < n \<and> rand > cum")
    case True
    let ?r = "scan rates base n rand (tr + 1) (cum + rates ! (base + (tr + 1)))"
    have eq: "scan rates base n rand tr cum = ?r"
      by (subst scan.simps) (simp only: True simp_thms if_True)
    have "cum + rates ! (base + (tr + 1)) = cum_rate rates base (tr + 1)"
      using "1.prems" by simp
    moreover have "tr + 1 \<le> n" using True by simp
    ultimately have ih: "tr + 1 \<le> ?r \<and> ?r \<le> n \<and>
        (\<forall>k. tr + 1 \<le> k \<and> k < ?r \<longrightarrow> rand > cum_rate rates base k) \<and>
        (?r < n \<longrightarrow> \<not> rand > cum_rate rates base ?r)"
      using "1.IH" True by blast
    have "\<forall>k. tr \<le> k \<and> k < ?r \<longrightarrow> rand > cum_rate rates base k"
    proof (intro allI impI)
      fix k assume k: "tr \<le> k \<and> k < ?r"
      show "rand > cum_rate rates base k"
      proof (cases "k = tr")
        case True
        then show ?thesis using \<open>tr < n \<and> rand > cum\<close> "1.prems" by simp
      next
        case False
        then have "tr + 1 \<le> k" using k by simp
        then show ?thesis using ih k by blast
      qed
    qed
    then show ?thesis unfolding eq using ih by simp
  next
    case False
    have eq: "scan rates base n rand tr cum = tr"
      by (subst scan.simps) (simp only: False simp_thms if_False)
    show ?thesis
      unfolding eq using False "1.prems" by auto
  qed
qed

lemma walk_back_spec:
  "walk_back rates base tr \<le> tr \<and>
   (\<forall>k. walk_back rates base tr < k \<and> k \<le> tr \<longrightarrow> rates ! (base + k) = 0) \<and>
   (0 < walk_back rates base tr \<longrightarrow> rates ! (base + walk_back rates base tr) \<noteq> 0)"
proof (induction tr)
  case 0
  show ?case by simp
next
  case (Suc tr)
  show ?case
  proof (cases "rates ! (base + Suc tr) = 0")
    case True
    then have eq: "walk_back rates base (Suc tr) = walk_back rates base tr" by simp
    have "\<forall>k. walk_back rates base tr < k \<and> k \<le> Suc tr \<longrightarrow> rates ! (base + k) = 0"
    proof (intro allI impI)
      fix k assume k: "walk_back rates base tr < k \<and> k \<le> Suc tr"
      show "rates ! (base + k) = 0"
      proof (cases "k = Suc tr")
        case True
        then show ?thesis using \<open>rates ! (base + Suc tr) = 0\<close> by simp
      next
        case False
        then have "k \<le> tr" using k by simp
        then show ?thesis using Suc.IH k by blast
      qed
    qed
    then show ?thesis using Suc.IH eq by simp
  next
    case False
    then show ?thesis by auto
  qed
qed

lemma nearest_nonzero_unique:
  fixes f :: "nat \<Rightarrow> double"
  assumes "a \<le> m" "f a \<noteq> 0" "\<forall>k. a < k \<and> k \<le> m \<longrightarrow> f k = 0"
    and "b \<le> m" "f b \<noteq> 0" "\<forall>k. b < k \<and> k \<le> m \<longrightarrow> f k = 0"
  shows "a = b"
proof (rule ccontr)
  assume "a \<noteq> b"
  then consider "a < b" | "b < a" by linarith
  then show False
  proof cases
    case 1
    then show False using assms(3,4,5) by blast
  next
    case 2
    then show False using assms(1,2,6) by blast
  qed
qed

lemma select_transition_spec:
  assumes "tr0 = scan (t_rate sa) (node * Nt sa) (Nt sa) rand 0 (t_rate sa ! (node * Nt sa))"
    and "tr1 = (if tr0 \<ge> Nt sa then Nt sa - 1 else tr0)"
    and "rate = (\<lambda>k. t_rate sa ! (node * Nt sa + k))"
  shows "(\<forall>tr. select_transition sa node rand = Some tr \<longleftrightarrow>
            tr \<le> tr1 \<and> rate tr \<noteq> 0 \<and> (\<forall>k. tr < k \<and> k \<le> tr1 \<longrightarrow> rate k = 0)) \<and>
         (select_transition sa node rand = None \<longleftrightarrow> (\<forall>k\<le>tr1. rate k = 0))"
proof -
  define tr2 where "tr2 = walk_back (t_rate sa) (node * Nt sa) tr1"
  have sel: "select_transition sa node rand
      = (if rate tr1 = 0 then if rate tr2 = 0 then None else Some tr2 else Some tr1)"
    unfolding select_transition_def Let_def tr2_def assms by (rule refl)
  have wb: "tr2 \<le> tr1" "\<forall>k. tr2 < k \<and> k \<le> tr1 \<longrightarrow> rate k = 0" "0 < tr2 \<longrightarrow> rate tr2 \<noteq> 0"
    using walk_back_spec [of "t_rate sa" "node * Nt sa" tr1] by (simp_all add: tr2_def assms(3))
  show ?thesis
  proof (cases "rate tr1 = 0")
    case False
    have "\<forall>tr. tr = tr1 \<longleftrightarrow>
        tr \<le> tr1 \<and> rate tr \<noteq> 0 \<and> (\<forall>k. tr < k \<and> k \<le> tr1 \<longrightarrow> rate k = 0)"
    proof (intro allI iffI)
      fix tr assume "tr = tr1"
      then show "tr \<le> tr1 \<and> rate tr \<noteq> 0 \<and> (\<forall>k. tr < k \<and> k \<le> tr1 \<longrightarrow> rate k = 0)"
        using False by auto
    next
      fix tr
      assume h: "tr \<le> tr1 \<and> rate tr \<noteq> 0 \<and> (\<forall>k. tr < k \<and> k \<le> tr1 \<longrightarrow> rate k = 0)"
      show "tr = tr1"
      proof (rule ccontr)
        assume "tr \<noteq> tr1"
        then have "tr < tr1" using h by simp
        then have "rate tr1 = 0" using h by blast
        with False show False by simp
      qed
    qed
    moreover have "\<not> (\<forall>k\<le>tr1. rate k = 0)" using False by blast
    ultimately show ?thesis using False by (auto simp: sel)
  next
    case zero1: True
    show ?thesis
    proof (cases "rate tr2 = 0")
      case True
      then have "tr2 = 0" using wb(3) by blast
      then have all0: "\<forall>k\<le>tr1. rate k = 0"
        using wb(2) True by (metis gr0I)
      then show ?thesis using True zero1 by (auto simp: sel)
    next
      case False
      have "\<forall>tr. tr = tr2 \<longleftrightarrow>
          tr \<le> tr1 \<and> rate tr \<noteq> 0 \<and> (\<forall>k. tr < k \<and> k \<le> tr1 \<longrightarrow> rate k = 0)"
        using nearest_nonzero_unique [of _ tr1 rate tr2] wb False by blast
      moreover have "\<not> (\<forall>k\<le>tr1. rate k = 0)" using False wb(1) by blast
      ultimately show ?thesis using False zero1 by (auto simp: sel)
    qed
  qed
qed

subsection \<open>C2: the transition draw and its floating point fix\<close>

text \<open>
  C2 as stated fails at a tie. With the rates \<open>[1, 1]\<close>, the sum 2 and the variate
  \<open>1/2\<close>, \<open>r\<close> is 1: the first index whose cumulative sum exceeds \<open>r\<close> is 1, but the
  scan stops at index 0, because its loop condition \<^verbatim>\<open>rand > cum\<close> is false there, and
  transition 0 fires.
\<close>

theorem scan_tie_counterexample:
  "scan (t_rate sis_args) 0 (Nt sis_args) (shd (rng sis_args) * sum_t_rate sis_args ! 0) 0
       (t_rate sis_args ! 0) = 0 \<and>
   first_exceeding (t_rate sis_args) 0 (Nt sis_args)
       (shd (rng sis_args) * sum_t_rate sis_args ! 0) = 1 \<and>
   select_transition sis_args 0 (shd (rng sis_args) * sum_t_rate sis_args ! 0) = Some 0"
  by (simp add: sis_args_def scan.simps first_exceeding_def select_transition_def
      zero_double_def upt_rec)

text \<open>
  C2, amended. In the transition draw of a node with \<open>rand\<close> the product of the variate
  and \<^verbatim>\<open>sum_t_rate[node]\<close>, and \<open>0 < Nt\<close>:
  \<^item> the scan returns the first index \<open>tr0\<close> at which \<^verbatim>\<open>rand > cum\<close> is false, where
    \<^verbatim>\<open>cum\<close> is the cumulative sum of the rates up to that index, or \<open>Nt\<close> if there is
    none;
  \<^item> \<open>tr0\<close> is clamped to \<open>tr1\<close>, at most \<open>Nt - 1\<close>;
  \<^item> the transition selected is the nearest index at or below \<open>tr1\<close> whose rate is not
    zero (\<open>tr1\<close> itself if its rate is not zero), and it fires;
  \<^item> there is none exactly if every rate at an index up to \<open>tr1\<close> is zero; then the
    step is a nil event: \<^verbatim>\<open>sum_t_rate[node]\<close> is set to 0, the loop is left, and nothing
    else changes but the generator.
\<close>

theorem select_transition_fix:
  assumes "0 < Nt sa"
    and "rand = shd (rng sa) * sum_t_rate sa ! node"
    and "tr0 = scan (t_rate sa) (node * Nt sa) (Nt sa) rand 0 (t_rate sa ! (node * Nt sa))"
    and "tr1 = min tr0 (Nt sa - 1)"
    and "rate = (\<lambda>k. t_rate sa ! (node * Nt sa + k))"
  shows "tr0 \<le> Nt sa \<and>
         (\<forall>k<tr0. rand > cum_rate (t_rate sa) (node * Nt sa) k) \<and>
         (tr0 < Nt sa \<longrightarrow> \<not> rand > cum_rate (t_rate sa) (node * Nt sa) tr0) \<and>
         (\<forall>tr. select_transition sa node rand = Some tr \<longleftrightarrow>
            tr \<le> tr1 \<and> rate tr \<noteq> 0 \<and> (\<forall>k. tr < k \<and> k \<le> tr1 \<longrightarrow> rate k = 0)) \<and>
         (select_transition sa node rand = None \<longleftrightarrow> (\<forall>k\<le>tr1. rate k = 0)) \<and>
         (select_transition sa node rand = None \<longrightarrow>
            draw_transition node sa =
              Break (sa\<lparr>rng := stl (rng sa), sum_t_rate := (sum_t_rate sa)[node := 0]\<rparr>)) \<and>
         (\<forall>tr. select_transition sa node rand = Some tr \<longrightarrow>
            draw_transition node sa =
              Continue (refresh_rates node tr (update_state node tr (sa\<lparr>rng := stl (rng sa)\<rparr>))))"
proof -
  have sc: "0 \<le> tr0 \<and> tr0 \<le> Nt sa \<and>
      (\<forall>k. 0 \<le> k \<and> k < tr0 \<longrightarrow> rand > cum_rate (t_rate sa) (node * Nt sa) k) \<and>
      (tr0 < Nt sa \<longrightarrow> \<not> rand > cum_rate (t_rate sa) (node * Nt sa) tr0)"
    unfolding assms(3)
    by (rule scan_spec) simp_all
  have clamp: "tr1 = (if tr0 \<ge> Nt sa then Nt sa - 1 else tr0)"
    using sc assms(1,4) by auto
  note sel = select_transition_spec [OF assms(3) clamp assms(5)]
  have nil: "select_transition sa node rand = None \<longrightarrow>
      draw_transition node sa =
        Break (sa\<lparr>rng := stl (rng sa), sum_t_rate := (sum_t_rate sa)[node := 0]\<rparr>)"
    by (simp add: draw_transition_def gsl_rng_uniform_pos_def select_transition_rng assms(2))
  have fire: "\<forall>tr. select_transition sa node rand = Some tr \<longrightarrow>
      draw_transition node sa =
        Continue (refresh_rates node tr (update_state node tr (sa\<lparr>rng := stl (rng sa)\<rparr>)))"
    by (simp add: draw_transition_def gsl_rng_uniform_pos_def select_transition_rng assms(2))
  from sc sel nil fire show ?thesis by simp
qed

theorem select_transition_fix_witness:
  "select_transition sis_args 0 (Fin 1) = Some 0 \<and>
   select_transition (sis_args\<lparr>t_rate := [Fin 1, Fin 0], sum_t_rate := [Fin 4]\<rparr>) 0 (Fin 2)
     = Some 0 \<and>
   draw_transition 0 (sis_args\<lparr>t_rate := [Fin 0, Fin 0], sum_t_rate := [Fin 1]\<rparr>)
     = Break (sis_args\<lparr>rng := sconst (Fin (1/2)), t_rate := [Fin 0, Fin 0],
                      sum_t_rate := [Fin 0]\<rparr>)"
proof -
  let ?a = "sis_args"
  let ?b = "sis_args\<lparr>t_rate := [Fin 1, Fin 0], sum_t_rate := [Fin 4]\<rparr>"
  let ?c = "sis_args\<lparr>t_rate := [Fin 0, Fin 0], sum_t_rate := [Fin 1]\<rparr>"
  let ?ra = "\<lambda>k. t_rate ?a ! (0 * Nt ?a + k)"
  let ?rb = "\<lambda>k. t_rate ?b ! (0 * Nt ?b + k)"
  let ?rc = "\<lambda>k. t_rate ?c ! (0 * Nt ?c + k)"
  have a1: "0 < Nt ?a" by (simp add: sis_args_def)
  have a2: "Fin 1 = shd (rng ?a) * sum_t_rate ?a ! 0" by (simp add: sis_args_def)
  have a3: "0 = scan (t_rate ?a) (0 * Nt ?a) (Nt ?a) (Fin 1) 0 (t_rate ?a ! (0 * Nt ?a))"
    by (simp add: sis_args_def scan.simps)
  have a4: "(0::nat) = min 0 (Nt ?a - 1)" by simp
  note tha = select_transition_fix [OF a1 a2 a3 a4 refl [of ?ra]]
  have "(0::nat) \<le> 0 \<and> ?ra 0 \<noteq> 0 \<and> (\<forall>k. 0 < k \<and> k \<le> 0 \<longrightarrow> ?ra k = 0)"
    by (auto simp: sis_args_def zero_double_def)
  with tha have a: "select_transition ?a 0 (Fin 1) = Some 0" by blast
  have b1: "0 < Nt ?b" by (simp add: sis_args_def)
  have b2: "Fin 2 = shd (rng ?b) * sum_t_rate ?b ! 0" by (simp add: sis_args_def)
  have b3: "2 = scan (t_rate ?b) (0 * Nt ?b) (Nt ?b) (Fin 2) 0 (t_rate ?b ! (0 * Nt ?b))"
    by (simp add: sis_args_def scan.simps)
  have b4: "(1::nat) = min 2 (Nt ?b - 1)" by (simp add: sis_args_def)
  note thb = select_transition_fix [OF b1 b2 b3 b4 refl [of ?rb]]
  have "(0::nat) \<le> 1 \<and> ?rb 0 \<noteq> 0 \<and> (\<forall>k. 0 < k \<and> k \<le> 1 \<longrightarrow> ?rb k = 0)"
    by (auto simp: sis_args_def zero_double_def le_Suc_eq)
  with thb have b: "select_transition ?b 0 (Fin 2) = Some 0" by blast
  have c1: "0 < Nt ?c" by (simp add: sis_args_def)
  have c2: "Fin (1/2) = shd (rng ?c) * sum_t_rate ?c ! 0" by (simp add: sis_args_def)
  have c3: "2 = scan (t_rate ?c) (0 * Nt ?c) (Nt ?c) (Fin (1/2)) 0 (t_rate ?c ! (0 * Nt ?c))"
    by (simp add: sis_args_def scan.simps zero_double_def)
  have c4: "(1::nat) = min 2 (Nt ?c - 1)" by (simp add: sis_args_def)
  note thc = select_transition_fix [OF c1 c2 c3 c4 refl [of ?rc]]
  have "\<forall>k\<le>1. ?rc k = 0"
    by (auto simp: sis_args_def zero_double_def le_Suc_eq)
  with thc have "draw_transition 0 ?c
      = Break (?c\<lparr>rng := stl (rng ?c), sum_t_rate := (sum_t_rate ?c)[0 := 0]\<rparr>)"
    by blast
  moreover have "?c\<lparr>rng := stl (rng ?c), sum_t_rate := (sum_t_rate ?c)[0 := 0]\<rparr>
      = sis_args\<lparr>rng := sconst (Fin (1/2)), t_rate := [Fin 0, Fin 0], sum_t_rate := [Fin 0]\<rparr>"
    by (simp add: sis_args_def zero_double_def)
  ultimately show ?thesis using a b by simp
qed

lemma update_entry_same:
  "irS (update_entry node j sa) = irS sa" "prS (update_entry node j sa) = prS sa"
  "Nc (update_entry node j sa) = Nc sa" "jcS (update_entry node j sa) = jcS sa"
  "length (u (update_entry node j sa)) = length (u sa)"
  by (simp_all add: update_entry_def Let_def)

lemma update_fold_counts:
  assumes "\<forall>j\<in>set js. node * Nc sa + irS sa ! j < length (u sa)" and "x < length (u sa)"
  shows "u (fold (update_entry node) js sa) ! x
           = u sa ! x + sum_list (map (\<lambda>j. prS sa ! j)
                                   (filter (\<lambda>j. node * Nc sa + irS sa ! j = x) js))"
  using assms
proof (induction js arbitrary: sa)
  case Nil
  show ?case by simp
next
  case (Cons j js)
  let ?s = "update_entry node j sa"
  have "u (fold (update_entry node) js ?s) ! x
      = u ?s ! x + sum_list (map (\<lambda>j. prS ?s ! j)
                               (filter (\<lambda>j. node * Nc ?s + irS ?s ! j = x) js))"
    using Cons.prems by (intro Cons.IH) (simp_all add: update_entry_same)
  moreover have "u ?s ! x = (if node * Nc sa + irS sa ! j = x then u sa ! x + prS sa ! j
                             else u sa ! x)"
    using Cons.prems by (simp add: update_entry_def Let_def)
  ultimately show ?case
    by (simp add: update_entry_same)
qed

lemma update_fold_length:
  "length (u (fold (update_entry node) js sa)) = length (u sa)"
  by (induction js arbitrary: sa) (simp_all add: update_entry_same)

lemma update_fold_same:
  "irS (fold (update_entry node) js sa) = irS sa \<and> Nc (fold (update_entry node) js sa) = Nc sa"
  using update_state_fold_frame [of node js sa] by auto

lemma update_fold_negative:
  assumes "j \<in> set js"
    and "u (fold (update_entry node) js sa) ! (node * Nc sa + irS sa ! j) < 0"
  shows "errcode (fold (update_entry node) js sa) = SIMINF_ERR_NEGATIVE_STATE"
  using assms
proof (induction js arbitrary: j rule: rev_induct)
  case Nil
  then show ?case by simp
next
  case (snoc j0 js)
  let ?s = "fold (update_entry node) js sa"
  let ?kl = "node * Nc sa + irS sa ! j0"
  let ?k = "node * Nc sa + irS sa ! j"
  have same: "irS ?s = irS sa" "Nc ?s = Nc sa" using update_fold_same by auto
  have final: "fold (update_entry node) (js @ [j0]) sa = update_entry node j0 ?s" by simp
  show ?case
  proof (cases "u (update_entry node j0 ?s) ! ?kl < 0")
    case neg: True
    have "errcode (update_entry node j0 ?s)
        = (if u (update_entry node j0 ?s) ! ?kl < 0 then SIMINF_ERR_NEGATIVE_STATE
           else errcode ?s)"
      by (simp add: update_entry_def Let_def same)
    with neg show ?thesis
      unfolding final by simp
  next
    case False
    then have ne: "?k \<noteq> ?kl" using snoc.prems(2) unfolding final by auto
    then have "j \<noteq> j0" by auto
    then have jin: "j \<in> set js" using snoc.prems(1) by simp
    have "u (update_entry node j0 ?s) ! ?k = u ?s ! ?k"
      using ne by (simp add: update_entry_def Let_def same)
    then have "u ?s ! ?k < 0" using snoc.prems(2) unfolding final by simp
    then have "errcode ?s = SIMINF_ERR_NEGATIVE_STATE"
      using snoc.IH jin by blast
    moreover have "errcode (update_entry node j0 ?s)
        = (if u (update_entry node j0 ?s) ! ?kl < 0 then SIMINF_ERR_NEGATIVE_STATE
           else errcode ?s)"
      by (simp add: update_entry_def Let_def same)
    ultimately show ?thesis
      unfolding final by simp
  qed
qed

subsection \<open>C3: the state change of a fired transition\<close>

text \<open>
  C3. When transition \<open>tr\<close> fires in a node, step 1c adds column \<open>tr\<close> of the
  state-change matrix to the counts of the node: every count \<^verbatim>\<open>u[node * Nc + r]\<close> grows
  by the entry in row \<open>r\<close> of that column, the counts of the other nodes are unchanged,
  and if a count that the column touches is negative afterwards, the error code is
  \<^verbatim>\<open>SIMINF_ERR_NEGATIVE_STATE\<close> at the end of step 1c. Nothing but \<^verbatim>\<open>u\<close> and the error
  code changes. The solver holds the state-change matrix in the fields \<^verbatim>\<open>irS\<close>, \<^verbatim>\<open>jcS\<close>
  and \<^verbatim>\<open>prS\<close>, which \<^verbatim>\<open>SimInf_run_solver_ssa\<close> copies from its arguments; the
  specification calls the matrix \<open>N\<close>.
\<close>

theorem update_state_adds_column:
  assumes "\<forall>j\<in>set (csc_column (jcS sa) tr). irS sa ! j < Nc sa"
    and "node * Nc sa + Nc sa \<le> length (u sa)"
  shows "(\<forall>r<Nc sa. u (update_state node tr sa) ! (node * Nc sa + r)
            = u sa ! (node * Nc sa + r) + csc_entry (irS sa) (jcS sa) (prS sa) r tr) \<and>
         (\<forall>x<length (u sa). x < node * Nc sa \<or> node * Nc sa + Nc sa \<le> x \<longrightarrow>
            u (update_state node tr sa) ! x = u sa ! x) \<and>
         length (u (update_state node tr sa)) = length (u sa) \<and>
         (\<forall>j\<in>set (csc_column (jcS sa) tr).
            u (update_state node tr sa) ! (node * Nc sa + irS sa ! j) < 0 \<longrightarrow>
            errcode (update_state node tr sa) = SIMINF_ERR_NEGATIVE_STATE) \<and>
         (\<exists>u' e. update_state node tr sa = sa\<lparr>u := u', errcode := e\<rparr>)"
proof -
  let ?col = "csc_column (jcS sa) tr"
  have us: "update_state node tr sa = fold (update_entry node) ?col sa"
    by (simp add: update_state_def csc_column_def)
  have inb: "\<forall>j\<in>set ?col. node * Nc sa + irS sa ! j < length (u sa)"
    using assms by fastforce
  have row: "\<forall>r<Nc sa. u (update_state node tr sa) ! (node * Nc sa + r)
      = u sa ! (node * Nc sa + r) + csc_entry (irS sa) (jcS sa) (prS sa) r tr"
  proof (intro allI impI)
    fix r assume "r < Nc sa"
    then have "node * Nc sa + r < length (u sa)" using assms(2) by simp
    from update_fold_counts [OF inb this]
    show "u (update_state node tr sa) ! (node * Nc sa + r)
        = u sa ! (node * Nc sa + r) + csc_entry (irS sa) (jcS sa) (prS sa) r tr"
      by (simp add: us csc_entry_def)
  qed
  have other: "\<forall>x<length (u sa). x < node * Nc sa \<or> node * Nc sa + Nc sa \<le> x \<longrightarrow>
      u (update_state node tr sa) ! x = u sa ! x"
  proof (intro allI impI)
    fix x assume x: "x < length (u sa)" and out: "x < node * Nc sa \<or> node * Nc sa + Nc sa \<le> x"
    have "\<forall>j\<in>set ?col. node * Nc sa + irS sa ! j \<noteq> x"
      using assms(1) out by fastforce
    then have "filter (\<lambda>j. node * Nc sa + irS sa ! j = x) ?col = []"
      by (simp add: filter_empty_conv)
    with update_fold_counts [OF inb x]
    show "u (update_state node tr sa) ! x = u sa ! x"
      by (simp add: us)
  qed
  have neg: "\<forall>j\<in>set ?col. u (update_state node tr sa) ! (node * Nc sa + irS sa ! j) < 0 \<longrightarrow>
      errcode (update_state node tr sa) = SIMINF_ERR_NEGATIVE_STATE"
    unfolding us using update_fold_negative by blast
  show ?thesis
    using row other neg update_state_frame [of node tr sa]
    by (simp add: us update_fold_length)
qed

theorem update_state_adds_column_witness:
  "u (update_state 0 0 sis_args) ! 0 = 0 \<and> u (update_state 0 0 sis_args) ! 1 = 2 \<and>
   u (update_state 0 0 (sis_args\<lparr>u := [0, 1]\<rparr>)) ! 0 = - 1 \<and>
   errcode (update_state 0 0 (sis_args\<lparr>u := [0, 1]\<rparr>)) = SIMINF_ERR_NEGATIVE_STATE"
proof -
  let ?b = "sis_args\<lparr>u := [0, 1]\<rparr>"
  have a1: "\<forall>j\<in>set (csc_column (jcS sis_args) 0). irS sis_args ! j < Nc sis_args"
    by (simp add: csc_column_def sis_args_def upt_rec)
  have a2: "0 * Nc sis_args + Nc sis_args \<le> length (u sis_args)"
    by (simp add: sis_args_def)
  note tha = update_state_adds_column [OF a1 a2]
  have e0: "csc_entry (irS sis_args) (jcS sis_args) (prS sis_args) 0 0 = - 1"
    by (simp add: csc_entry_def csc_column_def sis_args_def upt_rec)
  have e1: "csc_entry (irS sis_args) (jcS sis_args) (prS sis_args) 1 0 = 1"
    by (simp add: csc_entry_def csc_column_def sis_args_def upt_rec)
  have nc: "(0::nat) < Nc sis_args" "(1::nat) < Nc sis_args"
    by (simp_all add: sis_args_def)
  from tha nc(1) have "u (update_state 0 0 sis_args) ! (0 * Nc sis_args + 0)
      = u sis_args ! (0 * Nc sis_args + 0) + csc_entry (irS sis_args) (jcS sis_args) (prS sis_args) 0 0"
    by blast
  moreover have "u sis_args ! 0 = 1" "u sis_args ! 1 = 1"
    by (simp_all add: sis_args_def)
  ultimately have r0: "u (update_state 0 0 sis_args) ! 0 = 0"
    using e0 by simp
  from tha nc(2) have "u (update_state 0 0 sis_args) ! (0 * Nc sis_args + 1)
      = u sis_args ! (0 * Nc sis_args + 1) + csc_entry (irS sis_args) (jcS sis_args) (prS sis_args) 1 0"
    by blast
  moreover have "u sis_args ! 1 = 1"
    by (simp add: sis_args_def)
  ultimately have r1: "u (update_state 0 0 sis_args) ! 1 = 2"
    using e1 by simp
  have b1: "\<forall>j\<in>set (csc_column (jcS ?b) 0). irS ?b ! j < Nc ?b"
    by (simp add: csc_column_def sis_args_def upt_rec)
  have b2: "0 * Nc ?b + Nc ?b \<le> length (u ?b)"
    by (simp add: sis_args_def)
  note thb = update_state_adds_column [OF b1 b2]
  have f0: "csc_entry (irS ?b) (jcS ?b) (prS ?b) 0 0 = - 1"
    by (simp add: csc_entry_def csc_column_def sis_args_def upt_rec)
  have ncb: "(0::nat) < Nc ?b" by (simp add: sis_args_def)
  from thb ncb have "u (update_state 0 0 ?b) ! (0 * Nc ?b + 0)
      = u ?b ! (0 * Nc ?b + 0) + csc_entry (irS ?b) (jcS ?b) (prS ?b) 0 0"
    by blast
  then have s0: "u (update_state 0 0 ?b) ! 0 = - 1"
    using f0 by simp
  have jin: "0 \<in> set (csc_column (jcS ?b) 0)"
    by (simp add: csc_column_def sis_args_def)
  from thb have "\<forall>j\<in>set (csc_column (jcS ?b) 0).
      u (update_state 0 0 ?b) ! (0 * Nc ?b + irS ?b ! j) < 0 \<longrightarrow>
      errcode (update_state 0 0 ?b) = SIMINF_ERR_NEGATIVE_STATE"
    by blast
  with jin have "u (update_state 0 0 ?b) ! (0 * Nc ?b + irS ?b ! 0) < 0 \<longrightarrow>
      errcode (update_state 0 0 ?b) = SIMINF_ERR_NEGATIVE_STATE"
    by blast
  moreover have "irS sis_args ! 0 = 0"
    by (simp add: sis_args_def)
  ultimately have "errcode (update_state 0 0 ?b) = SIMINF_ERR_NEGATIVE_STATE"
    using s0 by simp
  with r0 r1 s0 show ?thesis by simp
qed

lemma refresh_entry_step:
  "refresh_entry node j (sa, d) =
     (sa\<lparr>t_rate := (t_rate sa)[node * Nt sa + irG sa ! j := refreshed sa node (irG sa ! j)],
         errcode := (if invalid_rate (refreshed sa node (irG sa ! j))
                     then SIMINF_ERR_INVALID_RATE else errcode sa)\<rparr>,
      d + (refreshed sa node (irG sa ! j) - t_rate sa ! (node * Nt sa + irG sa ! j)))"
  by (simp add: refresh_entry_def Let_def refreshed_def)

lemma refreshed_rate_errcode:
  "refreshed (sa\<lparr>t_rate := r, errcode := e\<rparr>) node i = refreshed sa node i"
  by (simp add: refreshed_def propensity_def)

lemma refresh_fold_rates:
  assumes "\<forall>j\<in>set js. node * Nt sa + irG sa ! j < length (t_rate sa)"
    and "x < length (t_rate sa)"
  shows "t_rate (fst (fold (refresh_entry node) js (sa, d))) ! x
           = (if \<exists>j\<in>set js. node * Nt sa + irG sa ! j = x
              then refreshed sa node (x - node * Nt sa) else t_rate sa ! x)"
  using assms
proof (induction js arbitrary: sa d)
  case Nil
  show ?case by simp
next
  case (Cons j js)
  let ?k = "node * Nt sa + irG sa ! j"
  let ?s = "sa\<lparr>t_rate := (t_rate sa)[?k := refreshed sa node (irG sa ! j)],
         errcode := (if invalid_rate (refreshed sa node (irG sa ! j))
                     then SIMINF_ERR_INVALID_RATE else errcode sa)\<rparr>"
  let ?d = "d + (refreshed sa node (irG sa ! j) - t_rate sa ! ?k)"
  have step: "fold (refresh_entry node) (j # js) (sa, d) = fold (refresh_entry node) js (?s, ?d)"
    by (simp add: refresh_entry_step)
  have ih: "t_rate (fst (fold (refresh_entry node) js (?s, ?d))) ! x
      = (if \<exists>j\<in>set js. node * Nt ?s + irG ?s ! j = x
         then refreshed ?s node (x - node * Nt ?s) else t_rate ?s ! x)"
    using Cons.prems by (intro Cons.IH) simp_all
  have kx: "t_rate ?s ! x = (if ?k = x then refreshed sa node (irG sa ! j) else t_rate sa ! x)"
    using Cons.prems by simp
  show ?case
    unfolding step ih kx by (auto simp: refreshed_rate_errcode)
qed

lemma refresh_fold_delta:
  assumes "\<forall>j\<in>set js. node * Nt sa + irG sa ! j < length (t_rate sa)"
    and "distinct (map (\<lambda>j. irG sa ! j) js)"
  shows "snd (fold (refresh_entry node) js (sa, d))
           = foldl (\<lambda>d j. d + (refreshed sa node (irG sa ! j)
                                 - t_rate sa ! (node * Nt sa + irG sa ! j))) d js"
  using assms
proof (induction js arbitrary: sa d)
  case Nil
  show ?case by simp
next
  case (Cons j js)
  let ?k = "node * Nt sa + irG sa ! j"
  let ?s = "sa\<lparr>t_rate := (t_rate sa)[?k := refreshed sa node (irG sa ! j)],
         errcode := (if invalid_rate (refreshed sa node (irG sa ! j))
                     then SIMINF_ERR_INVALID_RATE else errcode sa)\<rparr>"
  let ?d = "d + (refreshed sa node (irG sa ! j) - t_rate sa ! ?k)"
  have step: "fold (refresh_entry node) (j # js) (sa, d) = fold (refresh_entry node) js (?s, ?d)"
    by (simp add: refresh_entry_step)
  have ih: "snd (fold (refresh_entry node) js (?s, ?d))
      = foldl (\<lambda>d j. d + (refreshed ?s node (irG ?s ! j)
                            - t_rate ?s ! (node * Nt ?s + irG ?s ! j))) ?d js"
    using Cons.prems by (intro Cons.IH) simp_all
  have "foldl (\<lambda>d j. d + (refreshed ?s node (irG ?s ! j)
                            - t_rate ?s ! (node * Nt ?s + irG ?s ! j))) ?d js
      = foldl (\<lambda>d j. d + (refreshed sa node (irG sa ! j)
                            - t_rate sa ! (node * Nt sa + irG sa ! j))) ?d js"
  proof (rule foldl_cong [OF refl refl])
    fix a j' assume "j' \<in> set js"
    then have "irG sa ! j' \<in> (\<lambda>j. irG sa ! j) ` set js" by (rule imageI)
    moreover have "irG sa ! j \<notin> (\<lambda>j. irG sa ! j) ` set js" using Cons.prems(2) by simp
    ultimately have "irG sa ! j' \<noteq> irG sa ! j" by metis
    then show "a + (refreshed ?s node (irG ?s ! j') - t_rate ?s ! (node * Nt ?s + irG ?s ! j'))
        = a + (refreshed sa node (irG sa ! j') - t_rate sa ! (node * Nt sa + irG sa ! j'))"
      by (simp add: refreshed_rate_errcode)
  qed
  then show ?case
    unfolding step ih by simp
qed

subsection \<open>C4: the refresh of the rates through the dependency graph\<close>

text \<open>
  C4. After transition \<open>tr\<close> has fired in a node, step 1d leaves in \<^verbatim>\<open>t_rate\<close> of the
  node, for every propensity \<open>i\<close>: the value recomputed at the time \<^verbatim>\<open>t_time[node]\<close> if
  \<open>i\<close> is a row index in column \<open>tr\<close> of \<open>G\<close>, and the cached value otherwise. The
  rates of the other nodes are unchanged. Where the row indices of the column are
  distinct, as in a well-formed sparse matrix, \<^verbatim>\<open>sum_t_rate[node]\<close> grows by \<^verbatim>\<open>delta\<close>,
  the differences new minus old added up from 0 in the order of the column. Nothing
  but \<^verbatim>\<open>t_rate\<close>, \<^verbatim>\<open>sum_t_rate\<close> and the error code changes.
\<close>

theorem refresh_rates_dependency_graph:
  assumes "\<forall>j\<in>set (csc_column (jcG sa) tr). irG sa ! j < Nt sa"
    and "node * Nt sa + Nt sa \<le> length (t_rate sa)"
    and "sa' = refresh_rates node tr sa"
    and "deps = map (\<lambda>j. irG sa ! j) (csc_column (jcG sa) tr)"
  shows "(\<forall>i<Nt sa. t_rate sa' ! (node * Nt sa + i)
            = (if i \<in> set deps then propensity sa i node (v sa) (t_time sa ! node)
               else t_rate sa ! (node * Nt sa + i))) \<and>
         (\<forall>x<length (t_rate sa). x < node * Nt sa \<or> node * Nt sa + Nt sa \<le> x \<longrightarrow>
            t_rate sa' ! x = t_rate sa ! x) \<and>
         (distinct deps \<longrightarrow>
            sum_t_rate sa' = (sum_t_rate sa)[node := sum_t_rate sa ! node +
              foldl (\<lambda>delta i. delta + (propensity sa i node (v sa) (t_time sa ! node)
                                         - t_rate sa ! (node * Nt sa + i))) 0 deps]) \<and>
         (\<exists>r e s. sa' = sa\<lparr>t_rate := r, errcode := e, sum_t_rate := s\<rparr>)"
proof -
  let ?col = "csc_column (jcG sa) tr"
  let ?res = "fold (refresh_entry node) ?col (sa, 0)"
  obtain r e d' where res: "?res = (sa\<lparr>t_rate := r, errcode := e\<rparr>, d')"
    using refresh_fold_frame by blast
  have sa': "sa' = (fst ?res)\<lparr>sum_t_rate := (sum_t_rate sa)[node := sum_t_rate sa ! node + snd ?res]\<rparr>"
    unfolding assms(3) refresh_rates_def csc_column_def [symmetric] res by simp
  have rates: "t_rate sa' = t_rate (fst ?res)"
    unfolding sa' by simp
  have inb: "\<forall>j\<in>set ?col. node * Nt sa + irG sa ! j < length (t_rate sa)"
    using assms(1,2) by fastforce
  have own: "\<forall>i<Nt sa. t_rate sa' ! (node * Nt sa + i)
      = (if i \<in> set deps then propensity sa i node (v sa) (t_time sa ! node)
         else t_rate sa ! (node * Nt sa + i))"
  proof (intro allI impI)
    fix i assume "i < Nt sa"
    then have "node * Nt sa + i < length (t_rate sa)" using assms(2) by simp
    from refresh_fold_rates [OF inb this, of 0]
    show "t_rate sa' ! (node * Nt sa + i)
        = (if i \<in> set deps then propensity sa i node (v sa) (t_time sa ! node)
           else t_rate sa ! (node * Nt sa + i))"
      unfolding rates assms(4) by (auto simp: refreshed_def)
  qed
  have other: "\<forall>x<length (t_rate sa). x < node * Nt sa \<or> node * Nt sa + Nt sa \<le> x \<longrightarrow>
      t_rate sa' ! x = t_rate sa ! x"
  proof (intro allI impI)
    fix x assume x: "x < length (t_rate sa)" and out: "x < node * Nt sa \<or> node * Nt sa + Nt sa \<le> x"
    have "\<not> (\<exists>j\<in>set ?col. node * Nt sa + irG sa ! j = x)"
      using assms(1) out by fastforce
    with refresh_fold_rates [OF inb x, of 0]
    show "t_rate sa' ! x = t_rate sa ! x"
      unfolding rates by simp
  qed
  have total: "distinct deps \<longrightarrow>
      sum_t_rate sa' = (sum_t_rate sa)[node := sum_t_rate sa ! node +
        foldl (\<lambda>delta i. delta + (propensity sa i node (v sa) (t_time sa ! node)
                                   - t_rate sa ! (node * Nt sa + i))) 0 deps]"
  proof
    assume "distinct deps"
    then have "distinct (map (\<lambda>j. irG sa ! j) ?col)" by (simp add: assms(4))
    from refresh_fold_delta [OF inb this, of 0]
    have "snd ?res = foldl (\<lambda>delta i. delta + (propensity sa i node (v sa) (t_time sa ! node)
                                   - t_rate sa ! (node * Nt sa + i))) 0 deps"
      by (simp add: assms(4) foldl_map refreshed_def)
    then show "sum_t_rate sa' = (sum_t_rate sa)[node := sum_t_rate sa ! node +
        foldl (\<lambda>delta i. delta + (propensity sa i node (v sa) (t_time sa ! node)
                                   - t_rate sa ! (node * Nt sa + i))) 0 deps]"
      unfolding sa' by simp
  qed
  have "\<exists>r e s. sa' = sa\<lparr>t_rate := r, errcode := e, sum_t_rate := s\<rparr>"
    unfolding assms(3) by (rule refresh_rates_frame)
  with own other total show ?thesis by blast
qed

theorem refresh_rates_dependency_graph_witness:
  "t_rate (refresh_rates 0 0
     (sis_args\<lparr>irG := [1, 0], jcG := [0, 1, 2], u := [0, 2], gdata := [Fin 1, Fin 3],
               t_rate := [Fin 1, Fin 3], sum_t_rate := [Fin 4]\<rparr>)) ! 0 = Fin 1 \<and>
   t_rate (refresh_rates 0 0
     (sis_args\<lparr>irG := [1, 0], jcG := [0, 1, 2], u := [0, 2], gdata := [Fin 1, Fin 3],
               t_rate := [Fin 1, Fin 3], sum_t_rate := [Fin 4]\<rparr>)) ! 1 = Fin 6 \<and>
   sum_t_rate (refresh_rates 0 0
     (sis_args\<lparr>irG := [1, 0], jcG := [0, 1, 2], u := [0, 2], gdata := [Fin 1, Fin 3],
               t_rate := [Fin 1, Fin 3], sum_t_rate := [Fin 4]\<rparr>)) = [Fin 7]"
proof -
  define a where "a = sis_args\<lparr>irG := [1, 0], jcG := [0, 1, 2], u := [0, 2],
               gdata := [Fin 1, Fin 3], t_rate := [Fin 1, Fin 3], sum_t_rate := [Fin 4]\<rparr>"
  have deps: "[1] = map (\<lambda>j. irG a ! j) (csc_column (jcG a) 0)"
    by (simp add: csc_column_def a_def sis_args_def)
  have h1: "\<forall>j\<in>set (csc_column (jcG a) 0). irG a ! j < Nt a"
    by (simp add: csc_column_def a_def sis_args_def)
  have h2: "0 * Nt a + Nt a \<le> length (t_rate a)"
    by (simp add: a_def sis_args_def)
  note th = refresh_rates_dependency_graph [OF h1 h2 refl deps]
  have p1: "propensity a 1 0 (v a) (t_time a ! 0) = Fin 6"
    by (simp add: propensity_def a_def sis_args_def sis_I_to_S_def)
  have old: "t_rate a ! 0 = Fin 1" "t_rate a ! 1 = Fin 3" "sum_t_rate a = [Fin 4]" "Nt a = 2"
    by (simp_all add: a_def sis_args_def)
  from th have all: "\<forall>i<Nt a. t_rate (refresh_rates 0 0 a) ! (0 * Nt a + i)
      = (if i \<in> set [1] then propensity a i 0 (v a) (t_time a ! 0)
         else t_rate a ! (0 * Nt a + i))"
    by blast
  have r0: "t_rate (refresh_rates 0 0 a) ! 0 = Fin 1"
    using all [rule_format, of 0] old by simp
  have r1: "t_rate (refresh_rates 0 0 a) ! 1 = Fin 6"
    using all [rule_format, of 1] old p1 by simp
  from th have "sum_t_rate (refresh_rates 0 0 a) = (sum_t_rate a)[0 := sum_t_rate a ! 0 +
      foldl (\<lambda>delta i. delta + (propensity a i 0 (v a) (t_time a ! 0)
                                 - t_rate a ! (0 * Nt a + i))) 0 [1]]"
    by simp
  then have s: "sum_t_rate (refresh_rates 0 0 a) = [Fin 7]"
    using p1 old by (simp add: zero_double_def minus_double_def)
  from r0 r1 s show ?thesis
    unfolding a_def by simp
qed

lemma setup_worker_Ni: "Ni (setup_worker env args i) = i * (args_Nn args div args_Nthread args)"
  by (simp add: setup_worker_def Let_def)

lemma setup_worker_Nn:
  "Nn (setup_worker env args i) =
     (if i = args_Nthread args - 1
      then args_Nn args div args_Nthread args + args_Nn args mod args_Nthread args
      else args_Nn args div args_Nthread args)"
  by (simp add: setup_worker_def Let_def)

lemma chunk_owner:
  fixes T q r n :: nat
  assumes "0 < T" "r < T" "n < q * T + r"
  shows "\<exists>!i. i < T \<and> i * q \<le> n \<and> n < i * q + (if i = T - 1 then q + r else q)"
proof (cases "n < (T - 1) * q")
  case True
  then have q0: "0 < q" by (cases q) auto
  let ?i = "n div q"
  have lt: "?i < T - 1"
    using True q0 by (simp add: less_mult_imp_div_less)
  have lo: "?i * q \<le> n" by simp
  have hi: "n < ?i * q + q"
    using q0 by (metis add.commute dividend_less_div_times)
  show ?thesis
  proof (rule ex1I [of _ ?i])
    show "?i < T \<and> ?i * q \<le> n \<and> n < ?i * q + (if ?i = T - 1 then q + r else q)"
      using lt lo hi by auto
  next
    fix j assume j: "j < T \<and> j * q \<le> n \<and> n < j * q + (if j = T - 1 then q + r else q)"
    have "j \<noteq> T - 1" using j True by auto
    then have "q * j \<le> n" "n < q * Suc j" using j by (auto simp: algebra_simps)
    then show "j = ?i" using div_nat_eqI [of q j n] by simp
  qed
next
  case False
  show ?thesis
  proof (rule ex1I [of _ "T - 1"])
    have "(T - 1) * q + (q + r) = q * T + r"
      using assms(1) by (cases T) (auto simp: algebra_simps)
    then show "T - 1 < T \<and> (T - 1) * q \<le> n \<and>
        n < (T - 1) * q + (if T - 1 = T - 1 then q + r else q)"
      using False assms by auto
  next
    fix j assume j: "j < T \<and> j * q \<le> n \<and> n < j * q + (if j = T - 1 then q + r else q)"
    show "j = T - 1"
    proof (rule ccontr)
      assume ne: "j \<noteq> T - 1"
      then have "Suc j \<le> T - 1" using j by auto
      then have "Suc j * q \<le> (T - 1) * q" by (rule mult_le_mono1)
      moreover have "n < Suc j * q" using j ne by auto
      ultimately show False using False by linarith
    qed
  qed
qed

subsection \<open>C8: the partition of the nodes\<close>

text \<open>
  C8. With \<open>q\<close> the integer quotient of \<^verbatim>\<open>Nn\<close> by \<^verbatim>\<open>Nthread\<close>, worker \<open>i\<close> is given the
  nodes from \<open>i * q\<close>: \<open>q\<close> of them, and the last worker the remainder of the division
  in addition. The ranges follow one another from node 0 to node \<^verbatim>\<open>Nn\<close>, and every node
  below \<^verbatim>\<open>Nn\<close> lies in the range of exactly one worker. (The bounds \<open>i * Nn / Nthread\<close> of
  the claim are read with the quotient taken first, as the code computes them.)
\<close>

theorem node_partition:
  assumes "0 < args_Nthread args"
    and "q = args_Nn args div args_Nthread args"
    and "w = setup_worker env args"
  shows "(\<forall>i<args_Nthread args.
            Ni (w i) = i * q \<and>
            Nn (w i) = (if i = args_Nthread args - 1
                        then q + args_Nn args mod args_Nthread args else q)) \<and>
         (\<forall>i. Suc i < args_Nthread args \<longrightarrow> Ni (w (Suc i)) = Ni (w i) + Nn (w i)) \<and>
         Ni (w 0) = 0 \<and>
         Ni (w (args_Nthread args - 1)) + Nn (w (args_Nthread args - 1)) = args_Nn args \<and>
         (\<forall>n<args_Nn args.
            \<exists>!i. i < args_Nthread args \<and> Ni (w i) \<le> n \<and> n < Ni (w i) + Nn (w i))"
proof -
  let ?T = "args_Nthread args" and ?r = "args_Nn args mod args_Nthread args"
  have nn: "args_Nn args = q * ?T + ?r"
    by (simp add: assms(2))
  have r: "?r < ?T" using assms(1) by simp
  have a: "\<forall>i<?T. Ni (w i) = i * q \<and> Nn (w i) = (if i = ?T - 1 then q + ?r else q)"
    by (simp add: assms(2,3) setup_worker_Ni setup_worker_Nn)
  have b: "\<forall>i. Suc i < ?T \<longrightarrow> Ni (w (Suc i)) = Ni (w i) + Nn (w i)"
    by (auto simp: assms(2,3) setup_worker_Ni setup_worker_Nn)
  have c: "Ni (w 0) = 0"
    by (simp add: assms(3) setup_worker_Ni)
  have "(?T - 1) * q + (q + ?r) = q * ?T + ?r"
    using assms(1) by (cases ?T) (auto simp: algebra_simps)
  then have d: "Ni (w (?T - 1)) + Nn (w (?T - 1)) = args_Nn args"
    using nn by (simp add: assms(2,3) setup_worker_Ni setup_worker_Nn)
  have ni: "\<And>i. Ni (w i) = i * q"
    by (simp add: assms(2,3) setup_worker_Ni)
  have nw: "\<And>i. Nn (w i) = (if i = ?T - 1 then q + ?r else q)"
    by (simp add: assms(2,3) setup_worker_Nn)
  have e: "\<forall>n<args_Nn args. \<exists>!i. i < ?T \<and> Ni (w i) \<le> n \<and> n < Ni (w i) + Nn (w i)"
  proof (intro allI impI)
    fix n assume "n < args_Nn args"
    then have "n < q * ?T + ?r" using nn by simp
    from chunk_owner [OF assms(1) r this]
    show "\<exists>!i. i < ?T \<and> Ni (w i) \<le> n \<and> n < Ni (w i) + Nn (w i)"
      unfolding ni nw .
  qed
  from a b c d e show ?thesis by blast
qed

theorem node_partition_witness:
  "Ni (setup_worker sis_env (sis_solver_args\<lparr>args_Nn := 5, args_Nthread := 3\<rparr>) 0) = 0 \<and>
   Nn (setup_worker sis_env (sis_solver_args\<lparr>args_Nn := 5, args_Nthread := 3\<rparr>) 0) = 1 \<and>
   Ni (setup_worker sis_env (sis_solver_args\<lparr>args_Nn := 5, args_Nthread := 3\<rparr>) 1) = 1 \<and>
   Nn (setup_worker sis_env (sis_solver_args\<lparr>args_Nn := 5, args_Nthread := 3\<rparr>) 1) = 1 \<and>
   Ni (setup_worker sis_env (sis_solver_args\<lparr>args_Nn := 5, args_Nthread := 3\<rparr>) 2) = 2 \<and>
   Nn (setup_worker sis_env (sis_solver_args\<lparr>args_Nn := 5, args_Nthread := 3\<rparr>) 2) = 3"
proof -
  define a where "a = sis_solver_args\<lparr>args_Nn := 5, args_Nthread := 3\<rparr>"
  have h: "0 < args_Nthread a" "1 = args_Nn a div args_Nthread a"
    "args_Nthread a = 3" "args_Nn a mod args_Nthread a = 2"
    by (simp_all add: a_def)
  from node_partition [OF h(1) h(2) refl, of sis_env]
  have all: "\<forall>i<args_Nthread a.
      Ni (setup_worker sis_env a i) = i * 1 \<and>
      Nn (setup_worker sis_env a i)
        = (if i = args_Nthread a - 1 then 1 + args_Nn a mod args_Nthread a else 1)"
    by blast
  have "Ni (setup_worker sis_env a 0) = 0 \<and> Nn (setup_worker sis_env a 0) = 1"
    using all [rule_format, of 0] h(3,4) by simp
  moreover have "Ni (setup_worker sis_env a 1) = 1 \<and> Nn (setup_worker sis_env a 1) = 1"
    using all [rule_format, of 1] h(3,4) by simp
  moreover have "Ni (setup_worker sis_env a 2) = 2 \<and> Nn (setup_worker sis_env a 2) = 3"
    using all [rule_format, of 2] h(3,4) by simp
  ultimately show ?thesis unfolding a_def by blast
qed

lemma full_refresh_entry_step:
  "full_refresh_entry node j (sa, d) =
     (sa\<lparr>t_rate := (t_rate sa)[node * Nt sa + j := recomputed sa node j],
         errcode := (if invalid_rate (recomputed sa node j)
                     then SIMINF_ERR_INVALID_RATE else errcode sa)\<rparr>,
      d + (recomputed sa node j - t_rate sa ! (node * Nt sa + j)))"
  by (simp add: full_refresh_entry_def Let_def recomputed_def)

lemma recomputed_rate_errcode:
  "recomputed (sa\<lparr>t_rate := r, errcode := e\<rparr>) node j = recomputed sa node j"
  by (simp add: recomputed_def propensity_def)

lemma full_fold_frame:
  "\<exists>r e d'. fold (full_refresh_entry node) js (sa, d) = (sa\<lparr>t_rate := r, errcode := e\<rparr>, d')"
proof (induction js arbitrary: sa d)
  case Nil
  have "sa = sa\<lparr>t_rate := t_rate sa, errcode := errcode sa\<rparr>" by simp
  then show ?case by (metis fold_simps(1))
next
  case (Cons j js)
  let ?s = "fst (full_refresh_entry node j (sa, d))"
  let ?d = "snd (full_refresh_entry node j (sa, d))"
  obtain r e d' where
    "fold (full_refresh_entry node) js (?s, ?d) = (?s\<lparr>t_rate := r, errcode := e\<rparr>, d')"
    using Cons.IH by blast
  then have "fold (full_refresh_entry node) (j # js) (sa, d)
      = (sa\<lparr>t_rate := r, errcode := e\<rparr>, d')"
    by (simp add: full_refresh_entry_step)
  then show ?case by blast
qed

lemma full_fold_rates:
  assumes "\<forall>j\<in>set js. node * Nt sa + j < length (t_rate sa)"
    and "x < length (t_rate sa)"
  shows "t_rate (fst (fold (full_refresh_entry node) js (sa, d))) ! x
           = (if \<exists>j\<in>set js. node * Nt sa + j = x
              then recomputed sa node (x - node * Nt sa) else t_rate sa ! x)"
  using assms
proof (induction js arbitrary: sa d)
  case Nil
  show ?case by simp
next
  case (Cons j js)
  let ?k = "node * Nt sa + j"
  let ?s = "sa\<lparr>t_rate := (t_rate sa)[?k := recomputed sa node j],
         errcode := (if invalid_rate (recomputed sa node j)
                     then SIMINF_ERR_INVALID_RATE else errcode sa)\<rparr>"
  let ?d = "d + (recomputed sa node j - t_rate sa ! ?k)"
  have step: "fold (full_refresh_entry node) (j # js) (sa, d)
      = fold (full_refresh_entry node) js (?s, ?d)"
    by (simp add: full_refresh_entry_step)
  have ih: "t_rate (fst (fold (full_refresh_entry node) js (?s, ?d))) ! x
      = (if \<exists>j\<in>set js. node * Nt ?s + j = x
         then recomputed ?s node (x - node * Nt ?s) else t_rate ?s ! x)"
    using Cons.prems by (intro Cons.IH) simp_all
  have kx: "t_rate ?s ! x = (if ?k = x then recomputed sa node j else t_rate sa ! x)"
    using Cons.prems by simp
  show ?case
    unfolding step ih kx by (auto simp: recomputed_rate_errcode)
qed

lemma full_fold_delta:
  assumes "\<forall>j\<in>set js. node * Nt sa + j < length (t_rate sa)"
    and "distinct js"
  shows "snd (fold (full_refresh_entry node) js (sa, d))
           = foldl (\<lambda>d j. d + (recomputed sa node j - t_rate sa ! (node * Nt sa + j))) d js"
  using assms
proof (induction js arbitrary: sa d)
  case Nil
  show ?case by simp
next
  case (Cons j js)
  let ?k = "node * Nt sa + j"
  let ?s = "sa\<lparr>t_rate := (t_rate sa)[?k := recomputed sa node j],
         errcode := (if invalid_rate (recomputed sa node j)
                     then SIMINF_ERR_INVALID_RATE else errcode sa)\<rparr>"
  let ?d = "d + (recomputed sa node j - t_rate sa ! ?k)"
  have step: "fold (full_refresh_entry node) (j # js) (sa, d)
      = fold (full_refresh_entry node) js (?s, ?d)"
    by (simp add: full_refresh_entry_step)
  have ih: "snd (fold (full_refresh_entry node) js (?s, ?d))
      = foldl (\<lambda>d j. d + (recomputed ?s node j - t_rate ?s ! (node * Nt ?s + j))) ?d js"
    using Cons.prems by (intro Cons.IH) simp_all
  have "foldl (\<lambda>d j. d + (recomputed ?s node j - t_rate ?s ! (node * Nt ?s + j))) ?d js
      = foldl (\<lambda>d j. d + (recomputed sa node j - t_rate sa ! (node * Nt sa + j))) ?d js"
  proof (rule foldl_cong [OF refl refl])
    fix a j' assume "j' \<in> set js"
    then have "j' \<noteq> j" using Cons.prems(2) by auto
    then show "a + (recomputed ?s node j' - t_rate ?s ! (node * Nt ?s + j'))
        = a + (recomputed sa node j' - t_rate sa ! (node * Nt sa + j'))"
      by (simp add: recomputed_rate_errcode)
  qed
  then show ?case
    unfolding step ih by simp
qed

lemma full_refresh_frame:
  "\<exists>r e s n. full_refresh node sa
     = sa\<lparr>t_rate := r, errcode := e, sum_t_rate := s, update_node := n\<rparr>"
proof -
  obtain r e d' where
    "fold (full_refresh_entry node) [0..<Nt sa] (sa, 0) = (sa\<lparr>t_rate := r, errcode := e\<rparr>, d')"
    using full_fold_frame by blast
  then show ?thesis
    by (simp add: full_refresh_def) blast
qed

lemma full_refresh_spec:
  assumes "node * Nt sa + Nt sa \<le> length (t_rate sa)"
  shows "(\<forall>j<Nt sa. t_rate (full_refresh node sa) ! (node * Nt sa + j) = recomputed sa node j) \<and>
         (\<forall>x<length (t_rate sa). x < node * Nt sa \<or> node * Nt sa + Nt sa \<le> x \<longrightarrow>
            t_rate (full_refresh node sa) ! x = t_rate sa ! x) \<and>
         sum_t_rate (full_refresh node sa) = (sum_t_rate sa)[node := sum_t_rate sa ! node +
            foldl (\<lambda>delta j. delta + (recomputed sa node j - t_rate sa ! (node * Nt sa + j)))
              0 [0..<Nt sa]] \<and>
         update_node (full_refresh node sa) = (update_node sa)[node := 0]"
proof -
  let ?res = "fold (full_refresh_entry node) [0..<Nt sa] (sa, 0)"
  obtain r e d' where res: "?res = (sa\<lparr>t_rate := r, errcode := e\<rparr>, d')"
    using full_fold_frame by blast
  have fr: "full_refresh node sa
      = (fst ?res)\<lparr>sum_t_rate := (sum_t_rate sa)[node := sum_t_rate sa ! node + snd ?res],
                   update_node := (update_node sa)[node := 0]\<rparr>"
    unfolding full_refresh_def res by simp
  have rates: "t_rate (full_refresh node sa) = t_rate (fst ?res)"
    unfolding fr by simp
  have inb: "\<forall>j\<in>set [0..<Nt sa]. node * Nt sa + j < length (t_rate sa)"
    using assms by simp
  have own: "\<forall>j<Nt sa. t_rate (full_refresh node sa) ! (node * Nt sa + j) = recomputed sa node j"
  proof (intro allI impI)
    fix j assume j: "j < Nt sa"
    then have "node * Nt sa + j < length (t_rate sa)" using assms by simp
    from full_fold_rates [OF inb this, of 0] j
    show "t_rate (full_refresh node sa) ! (node * Nt sa + j) = recomputed sa node j"
      unfolding rates by simp
  qed
  have other: "\<forall>x<length (t_rate sa). x < node * Nt sa \<or> node * Nt sa + Nt sa \<le> x \<longrightarrow>
      t_rate (full_refresh node sa) ! x = t_rate sa ! x"
  proof (intro allI impI)
    fix x assume x: "x < length (t_rate sa)" and out: "x < node * Nt sa \<or> node * Nt sa + Nt sa \<le> x"
    have "\<not> (\<exists>j\<in>set [0..<Nt sa]. node * Nt sa + j = x)"
      using out by auto
    with full_fold_rates [OF inb x, of 0]
    show "t_rate (full_refresh node sa) ! x = t_rate sa ! x"
      unfolding rates by simp
  qed
  have "snd ?res = foldl (\<lambda>delta j. delta + (recomputed sa node j
                                             - t_rate sa ! (node * Nt sa + j))) 0 [0..<Nt sa]"
    by (rule full_fold_delta [OF inb]) simp
  then have total: "sum_t_rate (full_refresh node sa) = (sum_t_rate sa)[node := sum_t_rate sa ! node +
      foldl (\<lambda>delta j. delta + (recomputed sa node j - t_rate sa ! (node * Nt sa + j)))
        0 [0..<Nt sa]]"
    unfolding fr by simp
  have "update_node (full_refresh node sa) = (update_node sa)[node := 0]"
    unfolding fr by simp
  with own other total show ?thesis by blast
qed

subsection \<open>C9: the post-timestep phase\<close>

text \<open>
  C9. For a node in step 4, with \<open>rc\<close> the return code of the callback and \<open>sa1\<close> the
  state in which the callback has stored its values in \<^verbatim>\<open>v_new\<close>:
  \<^item> if \<open>rc < 0\<close>, the error code becomes \<open>rc\<close> and the loop over the nodes is left:
    the nodes that follow are not visited;
  \<^item> if \<open>rc > 0\<close> or \<^verbatim>\<open>update_node[node]\<close> is set, every one of the \<open>Nt\<close> rates of the
    node is recomputed from \<^verbatim>\<open>v_new\<close> at the time \<^verbatim>\<open>tt\<close>, \<^verbatim>\<open>sum_t_rate[node]\<close> grows by
    the differences new minus old added up from 0, \<^verbatim>\<open>update_node[node]\<close> is 0
    afterwards, and the loop goes on;
  \<^item> if \<open>rc = 0\<close> and the flag is clear, \<^verbatim>\<open>t_rate\<close> and \<^verbatim>\<open>sum_t_rate\<close> are unchanged
    and the loop goes on.
\<close>

theorem post_step_node_cases:
  assumes "node * Nt sa + Nt sa \<le> length (t_rate sa)"
    and "(rc, stored) =
           pts_fun sa (drop (node * Nd sa) (v_new sa)) (drop (node * Nc sa) (u sa))
             (drop (node * Nd sa) (v sa)) (drop (node * Nld sa) (ldata sa)) (gdata sa)
             (Ni sa + node) (tt sa)"
    and "sa1 = sa\<lparr>v_new := write_at (v_new sa) (node * Nd sa) stored\<rparr>"
  shows "(rc < 0 \<longrightarrow>
            post_step_node node sa = Break (sa1\<lparr>errcode := rc\<rparr>) \<and>
            post_step_nodes (node # nodes) sa = sa1\<lparr>errcode := rc\<rparr>) \<and>
         (0 \<le> rc \<and> (rc > 0 \<or> update_node sa ! node \<noteq> 0) \<longrightarrow>
            post_step_node node sa = Continue (full_refresh node sa1) \<and>
            (\<forall>j<Nt sa. t_rate (full_refresh node sa1) ! (node * Nt sa + j)
                         = propensity sa1 j node (v_new sa1) (tt sa)) \<and>
            sum_t_rate (full_refresh node sa1) = (sum_t_rate sa)[node := sum_t_rate sa ! node +
              foldl (\<lambda>delta j. delta + (propensity sa1 j node (v_new sa1) (tt sa)
                                         - t_rate sa ! (node * Nt sa + j))) 0 [0..<Nt sa]] \<and>
            update_node (full_refresh node sa1) = (update_node sa)[node := 0] \<and>
            post_step_nodes (node # nodes) sa = post_step_nodes nodes (full_refresh node sa1)) \<and>
         (rc = 0 \<and> update_node sa ! node = 0 \<longrightarrow>
            post_step_node node sa = Continue sa1 \<and>
            t_rate sa1 = t_rate sa \<and> sum_t_rate sa1 = sum_t_rate sa \<and>
            post_step_nodes (node # nodes) sa = post_step_nodes nodes sa1)"
proof -
  have call: "call_pts_fun node sa = (rc, sa1)"
    unfolding call_pts_fun_def assms(2) [symmetric] assms(3) by simp
  have same: "Nt sa1 = Nt sa" "t_rate sa1 = t_rate sa" "sum_t_rate sa1 = sum_t_rate sa"
    "update_node sa1 = update_node sa" "tt sa1 = tt sa"
    by (simp_all add: assms(3))
  have len: "node * Nt sa1 + Nt sa1 \<le> length (t_rate sa1)"
    using assms(1) by (simp add: same)
  note fr = full_refresh_spec [OF len]
  have fatal: "rc < 0 \<longrightarrow>
      post_step_node node sa = Break (sa1\<lparr>errcode := rc\<rparr>) \<and>
      post_step_nodes (node # nodes) sa = sa1\<lparr>errcode := rc\<rparr>"
    by (simp add: post_step_node_def call)
  have refresh: "0 \<le> rc \<and> (rc > 0 \<or> update_node sa ! node \<noteq> 0) \<longrightarrow>
      post_step_node node sa = Continue (full_refresh node sa1) \<and>
      post_step_nodes (node # nodes) sa = post_step_nodes nodes (full_refresh node sa1)"
    by (auto simp: post_step_node_def call same)
  have keep: "rc = 0 \<and> update_node sa ! node = 0 \<longrightarrow>
      post_step_node node sa = Continue sa1 \<and>
      post_step_nodes (node # nodes) sa = post_step_nodes nodes sa1"
    by (simp add: post_step_node_def call same)
  from fatal refresh keep fr show ?thesis
    by (simp add: same recomputed_def)
qed

theorem post_step_node_cases_witness:
  "errcode (post_step_nodes [0]
     (sis_args\<lparr>pts_fun := (\<lambda>vnew us vs ld gd node t. (- 3, []))\<rparr>)) = - 3 \<and>
   t_rate (post_step_nodes [0]
     (sis_args\<lparr>pts_fun := (\<lambda>vnew us vs ld gd node t. (- 3, []))\<rparr>)) = [Fin 1, Fin 1] \<and>
   t_rate (post_step_nodes [0]
     (sis_args\<lparr>pts_fun := (\<lambda>vnew us vs ld gd node t. (1, [Fin 2]))\<rparr>)) ! 0 = Fin 2 \<and>
   sum_t_rate (post_step_nodes [0]
     (sis_args\<lparr>pts_fun := (\<lambda>vnew us vs ld gd node t. (1, [Fin 2]))\<rparr>)) = [Fin 3] \<and>
   t_rate (post_step_nodes [0] sis_args) = [Fin 1, Fin 1] \<and>
   sum_t_rate (post_step_nodes [0] sis_args) = [Fin 2]"
proof -
  define a where "a = sis_args\<lparr>pts_fun := (\<lambda>vnew us vs ld gd node t. (- 3, []))\<rparr>"
  define b where "b = sis_args\<lparr>pts_fun := (\<lambda>vnew us vs ld gd node t. (1, [Fin 2]))\<rparr>"
  define b1 where "b1 = b\<lparr>v_new := write_at (v_new b) (0 * Nd b) [Fin 2]\<rparr>"
  define c1 where "c1 = sis_args\<lparr>v_new := write_at (v_new sis_args) (0 * Nd sis_args)
                                          (Fin 1 # tl (drop (0 * Nd sis_args) (v_new sis_args)))\<rparr>"
  have la: "0 * Nt a + Nt a \<le> length (t_rate a)" by (simp add: a_def sis_args_def)
  have ca: "(- 3, []) = pts_fun a (drop (0 * Nd a) (v_new a)) (drop (0 * Nc a) (u a))
      (drop (0 * Nd a) (v a)) (drop (0 * Nld a) (ldata a)) (gdata a) (Ni a + 0) (tt a)"
    by (simp add: a_def)
  from post_step_node_cases [OF la ca refl, of "[]"]
  have na: "post_step_nodes [0] a = a\<lparr>v_new := write_at (v_new a) (0 * Nd a) [], errcode := - 3\<rparr>"
    by simp
  have ra: "errcode (post_step_nodes [0] a) = - 3"
    "t_rate (post_step_nodes [0] a) = [Fin 1, Fin 1]"
    unfolding na by (simp_all add: a_def sis_args_def)
  have lb: "0 * Nt b + Nt b \<le> length (t_rate b)" by (simp add: b_def sis_args_def)
  have cb: "(1, [Fin 2]) = pts_fun b (drop (0 * Nd b) (v_new b)) (drop (0 * Nc b) (u b))
      (drop (0 * Nd b) (v b)) (drop (0 * Nld b) (ldata b)) (gdata b) (Ni b + 0) (tt b)"
    by (simp add: b_def)
  note thb = post_step_node_cases [OF lb cb b1_def, of "[]"]
  have pb: "propensity b1 0 0 (v_new b1) (tt b) = Fin 2" "propensity b1 1 0 (v_new b1) (tt b) = Fin 1"
    by (simp_all add: propensity_def b1_def b_def sis_args_def sis_S_to_I_def sis_I_to_S_def
        write_at_def)
  have ob: "t_rate b ! 0 = Fin 1" "t_rate b ! 1 = Fin 1" "sum_t_rate b = [Fin 2]" "Nt b = 2"
    by (simp_all add: b_def sis_args_def)
  from thb have nb: "post_step_nodes [0] b = full_refresh 0 b1"
    by simp
  from thb have "\<forall>j<Nt b. t_rate (full_refresh 0 b1) ! (0 * Nt b + j)
      = propensity b1 j 0 (v_new b1) (tt b)"
    by simp
  from this [rule_format, of 0] have rb: "t_rate (post_step_nodes [0] b) ! 0 = Fin 2"
    unfolding nb using pb ob by simp
  from thb have "sum_t_rate (full_refresh 0 b1) = (sum_t_rate b)[0 := sum_t_rate b ! 0 +
      foldl (\<lambda>delta j. delta + (propensity b1 j 0 (v_new b1) (tt b) - t_rate b ! (0 * Nt b + j)))
        0 [0..<Nt b]]"
    by simp
  then have sb: "sum_t_rate (post_step_nodes [0] b) = [Fin 3]"
    unfolding nb using pb ob by (simp add: upt_rec zero_double_def minus_double_def)
  have lc: "0 * Nt sis_args + Nt sis_args \<le> length (t_rate sis_args)"
    by (simp add: sis_args_def)
  have cc: "(0, Fin 1 # tl (drop (0 * Nd sis_args) (v_new sis_args)))
      = pts_fun sis_args (drop (0 * Nd sis_args) (v_new sis_args))
          (drop (0 * Nc sis_args) (u sis_args)) (drop (0 * Nd sis_args) (v sis_args))
          (drop (0 * Nld sis_args) (ldata sis_args)) (gdata sis_args) (Ni sis_args + 0)
          (tt sis_args)"
    by (simp add: sis_args_def sis_post_time_step_def)
  have fl: "update_node sis_args ! 0 = 0" by (simp add: sis_args_def)
  from post_step_node_cases [OF lc cc c1_def, of "[]"] fl
  have nc: "post_step_nodes [0] sis_args = c1"
    by simp
  have rc: "t_rate (post_step_nodes [0] sis_args) = [Fin 1, Fin 1]"
    "sum_t_rate (post_step_nodes [0] sis_args) = [Fin 2]"
    unfolding nc by (simp_all add: c1_def sis_args_def)
  from ra rb sb rc show ?thesis
    unfolding a_def b_def by simp
qed

subsection \<open>Copies into the dense outputs\<close>

lemma write_at_length:
  "off + length vals \<le> length dst \<Longrightarrow> length (write_at dst off vals) = length dst"
  by (simp add: write_at_def)

lemma write_at_nth:
  assumes "off + length vals \<le> length dst" and "x < length dst"
  shows "write_at dst off vals ! x
           = (if off \<le> x \<and> x < off + length vals then vals ! (x - off) else dst ! x)"
proof -
  have "length (take off dst) = off" using assms(1) by simp
  then show ?thesis
    using assms by (auto simp: write_at_def nth_append)
qed

lemma write_at_nth_in:
  assumes "off + length vals \<le> length dst" and "x < length vals"
  shows "write_at dst off vals ! (off + x) = vals ! x"
  using write_at_nth [OF assms(1), of "off + x"] assms by simp

lemma write_at_nth_before:
  assumes "off + length vals \<le> length dst" and "y < off"
  shows "write_at dst off vals ! y = dst ! y"
  using write_at_nth [OF assms(1), of y] assms by simp

lemma write_at_take:
  assumes "n \<le> off" and "n \<le> length dst"
  shows "take n (write_at dst off vals) = take n dst"
proof -
  have "n \<le> length (take off dst)" using assms by simp
  then have "take n (take off dst @ vals @ drop (off + length vals) dst) = take n (take off dst)"
    by simp
  also have "\<dots> = take n dst" using assms(1) by (simp add: min_def)
  finally show ?thesis by (simp add: write_at_def)
qed

lemma block_end:
  fixes D N I n k :: nat
  assumes "I + n \<le> N"
  shows "D * (N * k + I) + n * D \<le> D * (N * (k + 1))"
proof -
  have "D * (N * k + I) + n * D = D * (N * k + (I + n))" by (simp add: algebra_simps)
  also have "\<dots> \<le> D * (N * k + N)" using assms by (intro mult_le_mono2 add_left_mono)
  finally show ?thesis by (simp add: algebra_simps)
qed

lemma block_start:
  fixes D N I k :: nat
  shows "D * (N * k) \<le> D * (N * k + I)"
  by simp

lemma block_within:
  fixes D N k t :: nat
  assumes "k < t"
  shows "D * (N * (k + 1)) \<le> D * (N * t)"
  using assms by (intro mult_le_mono2) simp

lemma store_V_spec:
  assumes "Ni sa + Nn sa \<le> Ntot sa" and "Nd sa * (Ntot sa * tlen sa) \<le> length Vm"
    and "Nn sa * Nd sa \<le> length (v_new sa)"
  shows "\<exists>it Vm'. store_V sa Vm = (sa\<lparr>V_it := it\<rparr>, Vm') \<and> V_it sa \<le> it \<and>
           length Vm' = length Vm \<and>
           (\<forall>k. V_it sa \<le> k \<and> k < it \<longrightarrow>
              k < tlen sa \<and> tt sa > tspan sa ! k \<and>
              (\<forall>x<Nn sa * Nd sa. Vm' ! (Nd sa * (Ntot sa * k + Ni sa) + x) = v_new sa ! x)) \<and>
           (\<forall>y<length Vm. y < Nd sa * (Ntot sa * V_it sa) \<longrightarrow> Vm' ! y = Vm ! y) \<and>
           (it < tlen sa \<longrightarrow> \<not> tt sa > tspan sa ! it)"
  using assms
proof (induction sa Vm rule: store_V.induct)
  case (1 sa Vm)
  show ?case
  proof (cases "V_it sa < tlen sa \<and> tt sa > tspan sa ! V_it sa")
    case False
    have eq: "store_V sa Vm = (sa\<lparr>V_it := V_it sa\<rparr>, Vm)"
      by (subst store_V.simps) (simp only: False simp_thms if_False, simp)
    show ?thesis
      by (rule exI [of _ "V_it sa"], rule exI [of _ Vm]) (use eq False in auto)
  next
    case True
    let ?k = "V_it sa"
    let ?off = "Nd sa * (Ntot sa * ?k + Ni sa)"
    let ?vals = "take (Nn sa * Nd sa) (v_new sa)"
    let ?sa = "sa\<lparr>V_it := ?k + 1\<rparr>"
    let ?Vm = "memcpy Vm ?off (v_new sa) (Nn sa * Nd sa)"
    have lv: "length ?vals = Nn sa * Nd sa" using "1.prems"(3) by simp
    have e1: "?off + Nn sa * Nd sa \<le> Nd sa * (Ntot sa * (?k + 1))"
      by (rule block_end [OF "1.prems"(1)])
    have e2: "Nd sa * (Ntot sa * (?k + 1)) \<le> length Vm"
      using block_within [of ?k "tlen sa" "Nd sa" "Ntot sa"] True "1.prems"(2) by linarith
    have fit: "?off + length ?vals \<le> length Vm" using e1 e2 lv by linarith
    have len: "length ?Vm = length Vm"
      unfolding memcpy_def by (rule write_at_length [OF fit])
    have step: "store_V sa Vm = store_V ?sa ?Vm"
      by (subst store_V.simps) (simp only: True simp_thms if_True)
    have "\<exists>it Vm'. store_V ?sa ?Vm = (?sa\<lparr>V_it := it\<rparr>, Vm') \<and> V_it ?sa \<le> it \<and>
           length Vm' = length ?Vm \<and>
           (\<forall>k. V_it ?sa \<le> k \<and> k < it \<longrightarrow>
              k < tlen ?sa \<and> tt ?sa > tspan ?sa ! k \<and>
              (\<forall>x<Nn ?sa * Nd ?sa. Vm' ! (Nd ?sa * (Ntot ?sa * k + Ni ?sa) + x) = v_new ?sa ! x)) \<and>
           (\<forall>y<length ?Vm. y < Nd ?sa * (Ntot ?sa * V_it ?sa) \<longrightarrow> Vm' ! y = ?Vm ! y) \<and>
           (it < tlen ?sa \<longrightarrow> \<not> tt ?sa > tspan ?sa ! it)"
      using True "1.prems" len by (intro "1.IH") simp_all
    then obtain it Vm' where ih:
      "store_V ?sa ?Vm = (sa\<lparr>V_it := it\<rparr>, Vm')" "?k + 1 \<le> it" "length Vm' = length Vm"
      "\<forall>k. ?k + 1 \<le> k \<and> k < it \<longrightarrow>
          k < tlen sa \<and> tt sa > tspan sa ! k \<and>
          (\<forall>x<Nn sa * Nd sa. Vm' ! (Nd sa * (Ntot sa * k + Ni sa) + x) = v_new sa ! x)"
      "\<forall>y<length Vm. y < Nd sa * (Ntot sa * (?k + 1)) \<longrightarrow> Vm' ! y = ?Vm ! y"
      "it < tlen sa \<longrightarrow> \<not> tt sa > tspan sa ! it"
      by (auto simp: len)
    have own: "\<forall>x<Nn sa * Nd sa. Vm' ! (?off + x) = v_new sa ! x"
    proof (intro allI impI)
      fix x assume x: "x < Nn sa * Nd sa"
      then have b: "?off + x < Nd sa * (Ntot sa * (?k + 1))" using e1 by linarith
      then have "?off + x < length Vm" using e2 by linarith
      then have "Vm' ! (?off + x) = ?Vm ! (?off + x)" using ih(5) b by blast
      also have "\<dots> = ?vals ! x"
        unfolding memcpy_def by (rule write_at_nth_in [OF fit]) (simp only: lv x)
      also have "\<dots> = v_new sa ! x" using x by simp
      finally show "Vm' ! (?off + x) = v_new sa ! x" .
    qed
    have cols: "\<forall>k. ?k \<le> k \<and> k < it \<longrightarrow>
        k < tlen sa \<and> tt sa > tspan sa ! k \<and>
        (\<forall>x<Nn sa * Nd sa. Vm' ! (Nd sa * (Ntot sa * k + Ni sa) + x) = v_new sa ! x)"
    proof (intro allI impI)
      fix k assume k: "?k \<le> k \<and> k < it"
      show "k < tlen sa \<and> tt sa > tspan sa ! k \<and>
          (\<forall>x<Nn sa * Nd sa. Vm' ! (Nd sa * (Ntot sa * k + Ni sa) + x) = v_new sa ! x)"
      proof (cases "k = ?k")
        case True
        then show ?thesis using \<open>V_it sa < tlen sa \<and> tt sa > tspan sa ! V_it sa\<close> own by simp
      next
        case False
        then have "?k + 1 \<le> k \<and> k < it" using k by simp
        then show ?thesis using ih(4) by blast
      qed
    qed
    have before: "\<forall>y<length Vm. y < Nd sa * (Ntot sa * ?k) \<longrightarrow> Vm' ! y = Vm ! y"
    proof (intro allI impI)
      fix y assume y: "y < length Vm" and lt: "y < Nd sa * (Ntot sa * ?k)"
      have "y < ?off" using lt block_start [of "Nd sa" "Ntot sa" ?k "Ni sa"] by linarith
      have "Nd sa * (Ntot sa * ?k) \<le> Nd sa * (Ntot sa * (?k + 1))"
        by (intro mult_le_mono2) simp
      then have "y < Nd sa * (Ntot sa * (?k + 1))" using lt by linarith
      have a: "Vm' ! y = ?Vm ! y"
        using ih(5) y \<open>y < Nd sa * (Ntot sa * (?k + 1))\<close> by blast
      have b: "?Vm ! y = Vm ! y"
        unfolding memcpy_def by (rule write_at_nth_before [OF fit \<open>y < ?off\<close>])
      show "Vm' ! y = Vm ! y" using a b by (rule trans)
    qed
    show ?thesis
      unfolding step
      by (rule exI [of _ it], rule exI [of _ Vm']) (use ih(1,2,3,6) cols before in simp)
  qed
qed

lemma store_U_spec:
  assumes "Ni sa + Nn sa \<le> Ntot sa" and "Nc sa * (Ntot sa * tlen sa) \<le> length Um"
    and "Nn sa * Nc sa \<le> length (u sa)"
  shows "\<exists>it Um'. store_U sa Um = (sa\<lparr>U_it := it\<rparr>, Um') \<and> U_it sa \<le> it \<and>
           length Um' = length Um \<and>
           (\<forall>k. U_it sa \<le> k \<and> k < it \<longrightarrow>
              k < tlen sa \<and> tt sa > tspan sa ! k \<and>
              (\<forall>x<Nn sa * Nc sa. Um' ! (Nc sa * (Ntot sa * k + Ni sa) + x) = u sa ! x)) \<and>
           (\<forall>y<length Um. y < Nc sa * (Ntot sa * U_it sa) \<longrightarrow> Um' ! y = Um ! y) \<and>
           (it < tlen sa \<longrightarrow> \<not> tt sa > tspan sa ! it)"
  using assms
proof (induction sa Um rule: store_U.induct)
  case (1 sa Um)
  show ?case
  proof (cases "U_it sa < tlen sa \<and> tt sa > tspan sa ! U_it sa")
    case False
    have eq: "store_U sa Um = (sa\<lparr>U_it := U_it sa\<rparr>, Um)"
      by (subst store_U.simps) (simp only: False simp_thms if_False, simp)
    show ?thesis
      by (rule exI [of _ "U_it sa"], rule exI [of _ Um]) (use eq False in auto)
  next
    case True
    let ?k = "U_it sa"
    let ?off = "Nc sa * (Ntot sa * ?k + Ni sa)"
    let ?vals = "take (Nn sa * Nc sa) (u sa)"
    let ?sa = "sa\<lparr>U_it := ?k + 1\<rparr>"
    let ?Um = "memcpy Um ?off (u sa) (Nn sa * Nc sa)"
    have lv: "length ?vals = Nn sa * Nc sa" using "1.prems"(3) by simp
    have e1: "?off + Nn sa * Nc sa \<le> Nc sa * (Ntot sa * (?k + 1))"
      by (rule block_end [OF "1.prems"(1)])
    have e2: "Nc sa * (Ntot sa * (?k + 1)) \<le> length Um"
      using block_within [of ?k "tlen sa" "Nc sa" "Ntot sa"] True "1.prems"(2) by linarith
    have fit: "?off + length ?vals \<le> length Um" using e1 e2 lv by linarith
    have len: "length ?Um = length Um"
      unfolding memcpy_def by (rule write_at_length [OF fit])
    have step: "store_U sa Um = store_U ?sa ?Um"
      by (subst store_U.simps) (simp only: True simp_thms if_True)
    have "\<exists>it Um'. store_U ?sa ?Um = (?sa\<lparr>U_it := it\<rparr>, Um') \<and> U_it ?sa \<le> it \<and>
           length Um' = length ?Um \<and>
           (\<forall>k. U_it ?sa \<le> k \<and> k < it \<longrightarrow>
              k < tlen ?sa \<and> tt ?sa > tspan ?sa ! k \<and>
              (\<forall>x<Nn ?sa * Nc ?sa. Um' ! (Nc ?sa * (Ntot ?sa * k + Ni ?sa) + x) = u ?sa ! x)) \<and>
           (\<forall>y<length ?Um. y < Nc ?sa * (Ntot ?sa * U_it ?sa) \<longrightarrow> Um' ! y = ?Um ! y) \<and>
           (it < tlen ?sa \<longrightarrow> \<not> tt ?sa > tspan ?sa ! it)"
      using True "1.prems" len by (intro "1.IH") simp_all
    then obtain it Um' where ih:
      "store_U ?sa ?Um = (sa\<lparr>U_it := it\<rparr>, Um')" "?k + 1 \<le> it" "length Um' = length Um"
      "\<forall>k. ?k + 1 \<le> k \<and> k < it \<longrightarrow>
          k < tlen sa \<and> tt sa > tspan sa ! k \<and>
          (\<forall>x<Nn sa * Nc sa. Um' ! (Nc sa * (Ntot sa * k + Ni sa) + x) = u sa ! x)"
      "\<forall>y<length Um. y < Nc sa * (Ntot sa * (?k + 1)) \<longrightarrow> Um' ! y = ?Um ! y"
      "it < tlen sa \<longrightarrow> \<not> tt sa > tspan sa ! it"
      by (auto simp: len)
    have own: "\<forall>x<Nn sa * Nc sa. Um' ! (?off + x) = u sa ! x"
    proof (intro allI impI)
      fix x assume x: "x < Nn sa * Nc sa"
      then have b: "?off + x < Nc sa * (Ntot sa * (?k + 1))" using e1 by linarith
      then have "?off + x < length Um" using e2 by linarith
      then have "Um' ! (?off + x) = ?Um ! (?off + x)" using ih(5) b by blast
      also have "\<dots> = ?vals ! x"
        unfolding memcpy_def by (rule write_at_nth_in [OF fit]) (simp only: lv x)
      also have "\<dots> = u sa ! x" using x by simp
      finally show "Um' ! (?off + x) = u sa ! x" .
    qed
    have cols: "\<forall>k. ?k \<le> k \<and> k < it \<longrightarrow>
        k < tlen sa \<and> tt sa > tspan sa ! k \<and>
        (\<forall>x<Nn sa * Nc sa. Um' ! (Nc sa * (Ntot sa * k + Ni sa) + x) = u sa ! x)"
    proof (intro allI impI)
      fix k assume k: "?k \<le> k \<and> k < it"
      show "k < tlen sa \<and> tt sa > tspan sa ! k \<and>
          (\<forall>x<Nn sa * Nc sa. Um' ! (Nc sa * (Ntot sa * k + Ni sa) + x) = u sa ! x)"
      proof (cases "k = ?k")
        case True
        then show ?thesis using \<open>U_it sa < tlen sa \<and> tt sa > tspan sa ! U_it sa\<close> own by simp
      next
        case False
        then have "?k + 1 \<le> k \<and> k < it" using k by simp
        then show ?thesis using ih(4) by blast
      qed
    qed
    have before: "\<forall>y<length Um. y < Nc sa * (Ntot sa * ?k) \<longrightarrow> Um' ! y = Um ! y"
    proof (intro allI impI)
      fix y assume y: "y < length Um" and lt: "y < Nc sa * (Ntot sa * ?k)"
      have "y < ?off" using lt block_start [of "Nc sa" "Ntot sa" ?k "Ni sa"] by linarith
      have "Nc sa * (Ntot sa * ?k) \<le> Nc sa * (Ntot sa * (?k + 1))"
        by (intro mult_le_mono2) simp
      then have "y < Nc sa * (Ntot sa * (?k + 1))" using lt by linarith
      have a: "Um' ! y = ?Um ! y"
        using ih(5) y \<open>y < Nc sa * (Ntot sa * (?k + 1))\<close> by blast
      have b: "?Um ! y = Um ! y"
        unfolding memcpy_def by (rule write_at_nth_before [OF fit \<open>y < ?off\<close>])
      show "Um' ! y = Um ! y" using a b by (rule trans)
    qed
    show ?thesis
      unfolding step
      by (rule exI [of _ it], rule exI [of _ Um']) (use ih(1,2,3,6) cols before in simp)
  qed
qed

lemma write_at_length_ge: "length dst \<le> length (write_at dst off vals)"
  by (simp add: write_at_def)

lemma store_U_take:
  assumes "n \<le> Nc sa * (Ntot sa * U_it sa)" and "n \<le> length Um"
  shows "\<exists>it Um'. store_U sa Um = (sa\<lparr>U_it := it\<rparr>, Um') \<and> U_it sa \<le> it \<and>
           take n Um' = take n Um \<and> length Um \<le> length Um' \<and>
           (\<forall>k. U_it sa \<le> k \<and> k < it \<longrightarrow> k < tlen sa \<and> tt sa > tspan sa ! k)"
  using assms
proof (induction sa Um rule: store_U.induct)
  case (1 sa Um)
  show ?case
  proof (cases "U_it sa < tlen sa \<and> tt sa > tspan sa ! U_it sa")
    case False
    have eq: "store_U sa Um = (sa\<lparr>U_it := U_it sa\<rparr>, Um)"
      by (subst store_U.simps) (simp only: False simp_thms if_False, simp)
    show ?thesis
      by (rule exI [of _ "U_it sa"], rule exI [of _ Um]) (use eq in auto)
  next
    case True
    let ?k = "U_it sa"
    let ?off = "Nc sa * (Ntot sa * ?k + Ni sa)"
    let ?sa = "sa\<lparr>U_it := ?k + 1\<rparr>"
    let ?Um = "memcpy Um ?off (u sa) (Nn sa * Nc sa)"
    have step: "store_U sa Um = store_U ?sa ?Um"
      by (subst store_U.simps) (simp only: True simp_thms if_True)
    have noff: "n \<le> ?off"
      using "1.prems"(1) block_start [of "Nc sa" "Ntot sa" ?k "Ni sa"] by linarith
    have tk: "take n ?Um = take n Um"
      unfolding memcpy_def by (rule write_at_take [OF noff "1.prems"(2)])
    have lg: "length Um \<le> length ?Um"
      unfolding memcpy_def by (rule write_at_length_ge)
    have "Nc sa * (Ntot sa * ?k) \<le> Nc sa * (Ntot sa * (?k + 1))"
      by (intro mult_le_mono2) simp
    moreover have "Nc ?sa = Nc sa" "Ntot ?sa = Ntot sa" "U_it ?sa = ?k + 1" by simp_all
    ultimately have n1: "n \<le> Nc ?sa * (Ntot ?sa * U_it ?sa)"
      using "1.prems"(1) by (metis order_trans)
    have n2: "n \<le> length ?Um" using "1.prems"(2) lg by linarith
    have "\<exists>it Um'. store_U ?sa ?Um = (?sa\<lparr>U_it := it\<rparr>, Um') \<and> U_it ?sa \<le> it \<and>
           take n Um' = take n ?Um \<and> length ?Um \<le> length Um' \<and>
           (\<forall>k. U_it ?sa \<le> k \<and> k < it \<longrightarrow> k < tlen ?sa \<and> tt ?sa > tspan ?sa ! k)"
      using True n1 n2 by (intro "1.IH") simp_all
    then obtain it Um' where ih: "store_U ?sa ?Um = (sa\<lparr>U_it := it\<rparr>, Um')" "?k + 1 \<le> it"
      "take n Um' = take n ?Um" "length ?Um \<le> length Um'"
      "\<forall>k. ?k + 1 \<le> k \<and> k < it \<longrightarrow> k < tlen sa \<and> tt sa > tspan sa ! k"
      by auto
    have strict: "\<forall>k. ?k \<le> k \<and> k < it \<longrightarrow> k < tlen sa \<and> tt sa > tspan sa ! k"
    proof (intro allI impI)
      fix k assume k: "?k \<le> k \<and> k < it"
      show "k < tlen sa \<and> tt sa > tspan sa ! k"
      proof (cases "k = ?k")
        case True
        then show ?thesis using \<open>U_it sa < tlen sa \<and> tt sa > tspan sa ! U_it sa\<close> by simp
      next
        case False
        then have "?k + 1 \<le> k \<and> k < it" using k by simp
        then show ?thesis using ih(5) by blast
      qed
    qed
    show ?thesis
      unfolding step
      by (rule exI [of _ it], rule exI [of _ Um']) (use ih(1,2,3,4) tk lg strict in simp)
  qed
qed

lemma store_V_take:
  assumes "n \<le> Nd sa * (Ntot sa * V_it sa)" and "n \<le> length Vm"
  shows "\<exists>it Vm'. store_V sa Vm = (sa\<lparr>V_it := it\<rparr>, Vm') \<and> V_it sa \<le> it \<and>
           take n Vm' = take n Vm \<and> length Vm \<le> length Vm' \<and>
           (\<forall>k. V_it sa \<le> k \<and> k < it \<longrightarrow> k < tlen sa \<and> tt sa > tspan sa ! k)"
  using assms
proof (induction sa Vm rule: store_V.induct)
  case (1 sa Vm)
  show ?case
  proof (cases "V_it sa < tlen sa \<and> tt sa > tspan sa ! V_it sa")
    case False
    have eq: "store_V sa Vm = (sa\<lparr>V_it := V_it sa\<rparr>, Vm)"
      by (subst store_V.simps) (simp only: False simp_thms if_False, simp)
    show ?thesis
      by (rule exI [of _ "V_it sa"], rule exI [of _ Vm]) (use eq in auto)
  next
    case True
    let ?k = "V_it sa"
    let ?off = "Nd sa * (Ntot sa * ?k + Ni sa)"
    let ?sa = "sa\<lparr>V_it := ?k + 1\<rparr>"
    let ?Vm = "memcpy Vm ?off (v_new sa) (Nn sa * Nd sa)"
    have step: "store_V sa Vm = store_V ?sa ?Vm"
      by (subst store_V.simps) (simp only: True simp_thms if_True)
    have noff: "n \<le> ?off"
      using "1.prems"(1) block_start [of "Nd sa" "Ntot sa" ?k "Ni sa"] by linarith
    have tk: "take n ?Vm = take n Vm"
      unfolding memcpy_def by (rule write_at_take [OF noff "1.prems"(2)])
    have lg: "length Vm \<le> length ?Vm"
      unfolding memcpy_def by (rule write_at_length_ge)
    have "Nd sa * (Ntot sa * ?k) \<le> Nd sa * (Ntot sa * (?k + 1))"
      by (intro mult_le_mono2) simp
    moreover have "Nd ?sa = Nd sa" "Ntot ?sa = Ntot sa" "V_it ?sa = ?k + 1" by simp_all
    ultimately have n1: "n \<le> Nd ?sa * (Ntot ?sa * V_it ?sa)"
      using "1.prems"(1) by (metis order_trans)
    have n2: "n \<le> length ?Vm" using "1.prems"(2) lg by linarith
    have "\<exists>it Vm'. store_V ?sa ?Vm = (?sa\<lparr>V_it := it\<rparr>, Vm') \<and> V_it ?sa \<le> it \<and>
           take n Vm' = take n ?Vm \<and> length ?Vm \<le> length Vm' \<and>
           (\<forall>k. V_it ?sa \<le> k \<and> k < it \<longrightarrow> k < tlen ?sa \<and> tt ?sa > tspan ?sa ! k)"
      using True n1 n2 by (intro "1.IH") simp_all
    then obtain it Vm' where ih: "store_V ?sa ?Vm = (sa\<lparr>V_it := it\<rparr>, Vm')" "?k + 1 \<le> it"
      "take n Vm' = take n ?Vm" "length ?Vm \<le> length Vm'"
      "\<forall>k. ?k + 1 \<le> k \<and> k < it \<longrightarrow> k < tlen sa \<and> tt sa > tspan sa ! k"
      by auto
    have strict: "\<forall>k. ?k \<le> k \<and> k < it \<longrightarrow> k < tlen sa \<and> tt sa > tspan sa ! k"
    proof (intro allI impI)
      fix k assume k: "?k \<le> k \<and> k < it"
      show "k < tlen sa \<and> tt sa > tspan sa ! k"
      proof (cases "k = ?k")
        case True
        then show ?thesis using \<open>V_it sa < tlen sa \<and> tt sa > tspan sa ! V_it sa\<close> by simp
      next
        case False
        then have "?k + 1 \<le> k \<and> k < it" using k by simp
        then show ?thesis using ih(5) by blast
      qed
    qed
    show ?thesis
      unfolding step
      by (rule exI [of _ it], rule exI [of _ Vm']) (use ih(1,2,3,4) tk lg strict in simp)
  qed
qed

lemma post_step_node_frame:
  "\<exists>w r e s n. loop_state (post_step_node node sa)
     = sa\<lparr>v_new := w, t_rate := r, errcode := e, sum_t_rate := s, update_node := n\<rparr>"
proof -
  obtain rc sa1 where call: "call_pts_fun node sa = (rc, sa1)" by (cases "call_pts_fun node sa")
  then obtain w where sa1: "sa1 = sa\<lparr>v_new := w\<rparr>"
    by (auto simp: call_pts_fun_def split: prod.splits)
  obtain r e s n where fr: "full_refresh node sa1
      = sa1\<lparr>t_rate := r, errcode := e, sum_t_rate := s, update_node := n\<rparr>"
    using full_refresh_frame by blast
  have a: "sa1\<lparr>errcode := rc\<rparr> = sa\<lparr>v_new := w, t_rate := t_rate sa, errcode := rc,
      sum_t_rate := sum_t_rate sa, update_node := update_node sa\<rparr>"
    by (simp add: sa1)
  have b: "full_refresh node sa1
      = sa\<lparr>v_new := w, t_rate := r, errcode := e, sum_t_rate := s, update_node := n\<rparr>"
    using fr unfolding sa1 by simp
  have c: "sa1 = sa\<lparr>v_new := w, t_rate := t_rate sa, errcode := errcode sa,
      sum_t_rate := sum_t_rate sa, update_node := update_node sa\<rparr>"
    by (simp add: sa1)
  consider "rc < 0" | "\<not> rc < 0" "rc > 0 \<or> update_node sa1 ! node \<noteq> 0"
    | "\<not> rc < 0" "\<not> (rc > 0 \<or> update_node sa1 ! node \<noteq> 0)"
    by blast
  then show ?thesis
  proof cases
    case 1
    then have "loop_state (post_step_node node sa) = sa1\<lparr>errcode := rc\<rparr>"
      by (simp add: post_step_node_def call)
    then show ?thesis using a by metis
  next
    case 2
    then have "loop_state (post_step_node node sa) = full_refresh node sa1"
      by (simp add: post_step_node_def call)
    then show ?thesis using b by metis
  next
    case 3
    then have "loop_state (post_step_node node sa) = sa1"
      by (simp add: post_step_node_def call)
    then show ?thesis using c by metis
  qed
qed

lemma post_step_nodes_frame:
  "\<exists>w r e s n. post_step_nodes nodes sa
     = sa\<lparr>v_new := w, t_rate := r, errcode := e, sum_t_rate := s, update_node := n\<rparr>"
proof (induction nodes arbitrary: sa)
  case Nil
  have "sa = sa\<lparr>v_new := v_new sa, t_rate := t_rate sa, errcode := errcode sa,
      sum_t_rate := sum_t_rate sa, update_node := update_node sa\<rparr>"
    by simp
  then show ?case by (metis post_step_nodes.simps(1))
next
  case (Cons node nodes)
  obtain w r e s n where st: "loop_state (post_step_node node sa)
      = sa\<lparr>v_new := w, t_rate := r, errcode := e, sum_t_rate := s, update_node := n\<rparr>"
    using post_step_node_frame by blast
  show ?case
  proof (cases "post_step_node node sa")
    case (Break sa')
    then have "post_step_nodes (node # nodes) sa = sa'" by simp
    moreover have "sa' = sa\<lparr>v_new := w, t_rate := r, errcode := e, sum_t_rate := s,
        update_node := n\<rparr>"
      using st Break by simp
    ultimately show ?thesis by blast
  next
    case (Continue sa')
    then have nx: "post_step_nodes (node # nodes) sa = post_step_nodes nodes sa'" by simp
    have sa': "sa' = sa\<lparr>v_new := w, t_rate := r, errcode := e, sum_t_rate := s,
        update_node := n\<rparr>"
      using st Continue by simp
    obtain w' r' e' s' n' where "post_step_nodes nodes sa'
        = sa'\<lparr>v_new := w', t_rate := r', errcode := e', sum_t_rate := s', update_node := n'\<rparr>"
      using Cons.IH by blast
    then have "post_step_nodes (node # nodes) sa
        = sa\<lparr>v_new := w', t_rate := r', errcode := e', sum_t_rate := s', update_node := n'\<rparr>"
      unfolding nx sa' by simp
    then show ?thesis by blast
  qed
qed

lemma post_time_step_frame:
  "\<exists>w r e s n. post_time_step sa
     = sa\<lparr>v_new := w, t_rate := r, errcode := e, sum_t_rate := s, update_node := n\<rparr>"
  unfolding post_time_step_def by (rule post_step_nodes_frame)

subsection \<open>C10: what a sampled column holds\<close>

text \<open>
  C10. In steps 4 to 6a of a worker with dense outputs, let \<open>sa1\<close> be the state after
  the post-timestep callbacks of the day. Every column \<open>k\<close> that the worker writes
  has \<^verbatim>\<open>tspan[k] < tt\<close> for the new \<^verbatim>\<open>tt\<close>, which is the old \<^verbatim>\<open>next_day\<close>. The worker's
  part of column \<open>k\<close> of \<open>V\<close> holds \<^verbatim>\<open>v_new\<close> of \<open>sa1\<close>, the buffer the callbacks have
  written, and its part of column \<open>k\<close> of \<open>U\<close> holds the counts \<^verbatim>\<open>u\<close> of \<open>sa1\<close>. The
  buffer \<^verbatim>\<open>v\<close>, which the propensities of the day have read, is untouched by these
  steps, and the two buffers are exchanged only afterwards, by \<open>swap_v\<close>.
\<close>

theorem sampled_columns_from_v_new:
  assumes "post_phase sa (Some Um) (Some Vm) = (sa', Uo', Vo')"
    and "sa1 = post_time_step sa"
    and "Ni sa + Nn sa \<le> Ntot sa"
    and "Nc sa * (Ntot sa * tlen sa) \<le> length Um"
    and "Nd sa * (Ntot sa * tlen sa) \<le> length Vm"
    and "Nn sa * Nc sa \<le> length (u sa)"
    and "Nn sa * Nd sa \<le> length (v_new sa1)"
  shows "\<exists>Um' Vm'. Uo' = Some Um' \<and> Vo' = Some Vm' \<and>
           tt sa' = next_day sa \<and>
           (\<forall>k. V_it sa \<le> k \<and> k < V_it sa' \<longrightarrow>
              tspan sa ! k < tt sa' \<and>
              (\<forall>x<Nn sa * Nd sa. Vm' ! (Nd sa * (Ntot sa * k + Ni sa) + x) = v_new sa1 ! x)) \<and>
           (\<forall>k. U_it sa \<le> k \<and> k < U_it sa' \<longrightarrow>
              tspan sa ! k < tt sa' \<and>
              (\<forall>x<Nn sa * Nc sa. Um' ! (Nc sa * (Ntot sa * k + Ni sa) + x) = u sa1 ! x)) \<and>
           v_new sa' = v_new sa1 \<and> v sa' = v sa \<and> u sa' = u sa1 \<and>
           v (swap_v sa') = v_new sa1 \<and> v_new (swap_v sa') = v sa"
proof -
  obtain w r e s n where fr:
    "sa1 = sa\<lparr>v_new := w, t_rate := r, errcode := e, sum_t_rate := s, update_node := n\<rparr>"
    using post_time_step_frame assms(2) by metis
  define sa3 where "sa3 = sa1\<lparr>tt := next_day sa1, next_day := next_day sa1 + 1\<rparr>"
  have f3: "Ni sa3 = Ni sa" "Nn sa3 = Nn sa" "Ntot sa3 = Ntot sa" "Nc sa3 = Nc sa"
    "Nd sa3 = Nd sa" "tlen sa3 = tlen sa" "tspan sa3 = tspan sa" "u sa3 = u sa"
    "v_new sa3 = v_new sa1" "v sa3 = v sa" "tt sa3 = next_day sa" "U_it sa3 = U_it sa"
    "V_it sa3 = V_it sa" "u sa1 = u sa"
    by (simp_all add: sa3_def fr)
  have "\<exists>it Um'. store_U sa3 Um = (sa3\<lparr>U_it := it\<rparr>, Um') \<and> U_it sa3 \<le> it \<and>
           length Um' = length Um \<and>
           (\<forall>k. U_it sa3 \<le> k \<and> k < it \<longrightarrow>
              k < tlen sa3 \<and> tt sa3 > tspan sa3 ! k \<and>
              (\<forall>x<Nn sa3 * Nc sa3. Um' ! (Nc sa3 * (Ntot sa3 * k + Ni sa3) + x) = u sa3 ! x)) \<and>
           (\<forall>y<length Um. y < Nc sa3 * (Ntot sa3 * U_it sa3) \<longrightarrow> Um' ! y = Um ! y) \<and>
           (it < tlen sa3 \<longrightarrow> \<not> tt sa3 > tspan sa3 ! it)"
    using assms(3,4,6) by (intro store_U_spec) (simp_all add: f3)
  then obtain itU Um' where su: "store_U sa3 Um = (sa3\<lparr>U_it := itU\<rparr>, Um')"
    and cu: "\<forall>k. U_it sa \<le> k \<and> k < itU \<longrightarrow>
              tspan sa ! k < next_day sa \<and>
              (\<forall>x<Nn sa * Nc sa. Um' ! (Nc sa * (Ntot sa * k + Ni sa) + x) = u sa ! x)"
    unfolding f3 by blast
  define sa4 where "sa4 = sa3\<lparr>U_it := itU\<rparr>"
  have f4: "Ni sa4 = Ni sa" "Nn sa4 = Nn sa" "Ntot sa4 = Ntot sa" "Nd sa4 = Nd sa"
    "tlen sa4 = tlen sa" "tspan sa4 = tspan sa" "v_new sa4 = v_new sa1" "tt sa4 = next_day sa"
    "V_it sa4 = V_it sa"
    by (simp_all add: sa4_def f3)
  have "\<exists>it Vm'. store_V sa4 Vm = (sa4\<lparr>V_it := it\<rparr>, Vm') \<and> V_it sa4 \<le> it \<and>
           length Vm' = length Vm \<and>
           (\<forall>k. V_it sa4 \<le> k \<and> k < it \<longrightarrow>
              k < tlen sa4 \<and> tt sa4 > tspan sa4 ! k \<and>
              (\<forall>x<Nn sa4 * Nd sa4. Vm' ! (Nd sa4 * (Ntot sa4 * k + Ni sa4) + x) = v_new sa4 ! x)) \<and>
           (\<forall>y<length Vm. y < Nd sa4 * (Ntot sa4 * V_it sa4) \<longrightarrow> Vm' ! y = Vm ! y) \<and>
           (it < tlen sa4 \<longrightarrow> \<not> tt sa4 > tspan sa4 ! it)"
    using assms(3,5,7) by (intro store_V_spec) (simp_all add: f4)
  then obtain itV Vm' where sv: "store_V sa4 Vm = (sa4\<lparr>V_it := itV\<rparr>, Vm')"
    and cv: "\<forall>k. V_it sa \<le> k \<and> k < itV \<longrightarrow>
              tspan sa ! k < next_day sa \<and>
              (\<forall>x<Nn sa * Nd sa. Vm' ! (Nd sa * (Ntot sa * k + Ni sa) + x) = v_new sa1 ! x)"
    unfolding f4 by blast
  have "post_phase sa (Some Um) (Some Vm) = (sa4\<lparr>V_it := itV\<rparr>, Some Um', Some Vm')"
    unfolding post_phase_def Let_def assms(2) [symmetric] sample_U_def sample_V_def
    using su sv by (simp add: sa3_def sa4_def)
  then have res: "sa' = sa4\<lparr>V_it := itV\<rparr>" "Uo' = Some Um'" "Vo' = Some Vm'"
    using assms(1) by simp_all
  have fin: "tt sa' = next_day sa" "V_it sa' = itV" "U_it sa' = itU" "v_new sa' = v_new sa1"
    "v sa' = v sa" "u sa' = u sa1"
    by (simp_all add: res sa4_def f3)
  show ?thesis
    using res(2,3) cu cv fin by (simp add: swap_v_def f3(14))
qed

theorem sampled_columns_from_v_new_witness:
  "post_phase (sis_args\<lparr>tt := Fin 1, next_day := Fin 2, v := [Fin 5]\<rparr>)
       (Some [1, 1, 0, 0, 0, 0]) (Some [Fin 5, Fin 0, Fin 0])
     = (sis_args\<lparr>tt := Fin 2, next_day := Fin 3, v := [Fin 5], v_new := [Fin 1],
                  U_it := 2, V_it := 2\<rparr>,
        Some [1, 1, 1, 1, 0, 0], Some [Fin 5, Fin 1, Fin 0]) \<and>
   [Fin 5, Fin 1, Fin 0] ! 1
     = v_new (post_time_step (sis_args\<lparr>tt := Fin 1, next_day := Fin 2, v := [Fin 5]\<rparr>)) ! 0 \<and>
   v_new (post_time_step (sis_args\<lparr>tt := Fin 1, next_day := Fin 2, v := [Fin 5]\<rparr>)) = [Fin 1] \<and>
   v (sis_args\<lparr>tt := Fin 1, next_day := Fin 2, v := [Fin 5]\<rparr>) = [Fin 5]"
proof -
  define a where "a = sis_args\<lparr>tt := Fin 1, next_day := Fin 2, v := [Fin 5]\<rparr>"
  define a' where "a' = sis_args\<lparr>tt := Fin 2, next_day := Fin 3, v := [Fin 5], v_new := [Fin 1],
                  U_it := 2, V_it := 2\<rparr>"
  have pts: "post_time_step a = a\<lparr>v_new := [Fin 1]\<rparr>"
    by (simp add: post_time_step_def post_step_node_def call_pts_fun_def a_def sis_args_def
        sis_post_time_step_def write_at_def)
  have run: "post_phase a (Some [1, 1, 0, 0, 0, 0]) (Some [Fin 5, Fin 0, Fin 0])
      = (a', Some [1, 1, 1, 1, 0, 0], Some [Fin 5, Fin 1, Fin 0])"
    unfolding post_phase_def pts
    by (simp add: sample_U_def sample_V_def store_U.simps store_V.simps memcpy_def write_at_def
        a_def a'_def sis_args_def one_double_def)
  have h: "Ni a + Nn a \<le> Ntot a" "Nc a * (Ntot a * tlen a) \<le> length [1, 1, 0, 0, 0, 0::int]"
    "Nd a * (Ntot a * tlen a) \<le> length [Fin 5, Fin 0, Fin 0]" "Nn a * Nc a \<le> length (u a)"
    "Nn a * Nd a \<le> length (v_new (post_time_step a))"
    unfolding pts by (simp_all add: a_def sis_args_def)
  from sampled_columns_from_v_new [OF run refl h]
  obtain Vm' where "Some [Fin 5, Fin 1, Fin 0] = Some Vm'"
    and "\<forall>k. V_it a \<le> k \<and> k < V_it a' \<longrightarrow>
      tspan a ! k < tt a' \<and>
      (\<forall>x<Nn a * Nd a. Vm' ! (Nd a * (Ntot a * k + Ni a) + x) = v_new (post_time_step a) ! x)"
    by blast
  then have "\<forall>k. V_it a \<le> k \<and> k < V_it a' \<longrightarrow>
      tspan a ! k < tt a' \<and>
      (\<forall>x<Nn a * Nd a. [Fin 5, Fin 1, Fin 0] ! (Nd a * (Ntot a * k + Ni a) + x)
                        = v_new (post_time_step a) ! x)"
    by blast
  moreover have "V_it a \<le> 1 \<and> 1 < V_it a'" "0 < Nn a * Nd a" "Nd a * (Ntot a * 1 + Ni a) + 0 = 1"
    by (simp_all add: a_def a'_def sis_args_def)
  ultimately have col: "[Fin 5, Fin 1, Fin 0] ! 1 = v_new (post_time_step a) ! 0"
    by metis
  have "v_new (post_time_step a) = [Fin 1]" "v a = [Fin 5]"
    unfolding pts by (simp_all add: a_def)
  with run col show ?thesis
    unfolding a_def a'_def by simp
qed

lemma fold_layout:
  assumes "\<And>x s. layout (f x s) = layout s"
  shows "layout (fold f xs s) = layout s"
  by (induction xs arbitrary: s) (simp_all add: assms)

lemma init_worker_layout: "layout (init_worker sa) = layout sa"
proof -
  have a: "\<And>node j s. layout (init_rate node j s) = layout s"
    by (simp add: init_rate_def layout_def Let_def)
  have b: "\<And>node s. layout (init_node node s) = layout s"
  proof -
    fix node s
    have "layout (fold (init_rate node) [0..<Nt s] (s\<lparr>sum_t_rate := (sum_t_rate s)[node := 0]\<rparr>))
        = layout (s\<lparr>sum_t_rate := (sum_t_rate s)[node := 0]\<rparr>)"
      by (rule fold_layout) (rule a)
    then show "layout (init_node node s) = layout s"
      by (simp add: init_node_def Let_def layout_def)
  qed
  show ?thesis
    unfolding init_worker_def by (rule fold_layout) (rule b)
qed

lemma draw_transition_layout: "layout (loop_state (draw_transition node sa)) = layout sa"
proof (cases "select_transition (sa\<lparr>rng := stl (rng sa)\<rparr>) node
                (shd (rng sa) * sum_t_rate sa ! node)")
  case None
  then show ?thesis
    by (simp add: draw_transition_def gsl_rng_uniform_pos_def layout_def)
next
  case (Some tr)
  let ?s = "sa\<lparr>rng := stl (rng sa)\<rparr>"
  obtain u' e where us: "update_state node tr ?s = ?s\<lparr>u := u', errcode := e\<rparr>"
    using update_state_frame by blast
  obtain r e' s where "refresh_rates node tr (?s\<lparr>u := u', errcode := e\<rparr>)
      = ?s\<lparr>u := u', errcode := e, t_rate := r, errcode := e', sum_t_rate := s\<rparr>"
    using refresh_rates_frame by blast
  with Some us show ?thesis
    by (simp add: draw_transition_def gsl_rng_uniform_pos_def layout_def)
qed

lemma ssa_step_layout: "layout (loop_state (ssa_step node sa)) = layout sa"
proof -
  let ?tau = "- log_double (shd (rng sa)) / sum_t_rate sa ! node"
  let ?adv = "sa\<lparr>rng := stl (rng sa), t_time := (t_time sa)[node := t_time sa ! node + ?tau]\<rparr>"
  have "layout (loop_state (draw_transition node ?adv)) = layout ?adv"
    by (rule draw_transition_layout)
  then show ?thesis
    by (simp add: ssa_step_def gsl_rng_uniform_pos_def layout_def Let_def)
qed

lemma ssa_node_layout:
  "ssa_node fuel node sa = Some sa' \<Longrightarrow> layout sa' = layout sa"
proof (induction fuel arbitrary: sa)
  case 0
  then show ?case by simp
next
  case (Suc fuel)
  show ?case
  proof (cases "ssa_step node sa")
    case (Break s)
    then have "sa' = s" using Suc.prems by simp
    then show ?thesis using ssa_step_layout [of node sa] Break by simp
  next
    case (Continue s)
    then have "ssa_node fuel node s = Some sa'" using Suc.prems by simp
    then have "layout sa' = layout s" by (rule Suc.IH)
    then show ?thesis using ssa_step_layout [of node sa] Continue by simp
  qed
qed

lemma ssa_nodes_layout:
  "ssa_nodes fuel nodes sa = Some sa' \<Longrightarrow> layout sa' = layout sa"
proof (induction nodes arbitrary: sa)
  case Nil
  then show ?case by simp
next
  case (Cons node nodes)
  show ?case
  proof (cases "errcode sa \<noteq> 0")
    case True
    then show ?thesis using Cons.prems by simp
  next
    case False
    then obtain s where s: "ssa_node fuel node sa = Some s" "ssa_nodes fuel nodes s = Some sa'"
      using Cons.prems by (auto split: option.splits)
    then show ?thesis using Cons.IH ssa_node_layout by metis
  qed
qed

lemma ssa_phase_layout: "ssa_phase fuel sa = Some sa' \<Longrightarrow> layout sa' = layout sa"
  unfolding ssa_phase_def by (rule ssa_nodes_layout)

lemma apply_event_effect_layout: "layout (apply_event_effect ev sa) = layout sa"
  by (simp add: apply_event_effect_def layout_def)

lemma swap_v_layout: "layout (swap_v sa) = layout sa"
  by (simp add: swap_v_def layout_def)

lemma post_time_step_layout: "layout (post_time_step sa) = layout sa"
proof -
  obtain w r e s n where "post_time_step sa
      = sa\<lparr>v_new := w, t_rate := r, errcode := e, sum_t_rate := s, update_node := n\<rparr>"
    using post_time_step_frame by blast
  then show ?thesis by (simp add: layout_def)
qed

lemma cursors_ok_layout: "layout sa' = layout sa \<Longrightarrow> cursors_ok N C D sa \<Longrightarrow> cursors_ok N C D sa'"
  by (simp add: layout_def cursors_ok_def)

lemma post_phase_prefix:
  assumes "cursors_ok N C D sa" and "n \<le> C * N" and "n \<le> length Um"
    and "m \<le> D * N" and "m \<le> length Vm"
    and "post_phase sa (Some Um) (Some Vm) = (sa', Uo', Vo')"
  shows "\<exists>Um' Vm'. Uo' = Some Um' \<and> Vo' = Some Vm' \<and>
           take n Um' = take n Um \<and> take m Vm' = take m Vm \<and>
           length Um \<le> length Um' \<and> length Vm \<le> length Vm' \<and> cursors_ok N C D sa'"
proof -
  define sa3 where "sa3 = (post_time_step sa)\<lparr>tt := next_day (post_time_step sa),
      next_day := next_day (post_time_step sa) + 1\<rparr>"
  have l3: "layout sa3 = layout sa"
    using post_time_step_layout [of sa] by (simp add: sa3_def layout_def)
  then have ok3: "cursors_ok N C D sa3" using assms(1) by (rule cursors_ok_layout)
  have f3: "Ntot sa3 = N" "Nc sa3 = C" "1 \<le> U_it sa3"
    using ok3 by (simp_all add: cursors_ok_def)
  have "N * 1 \<le> N * U_it sa3" using f3(3) by (rule mult_le_mono2)
  then have "C * N \<le> C * (N * U_it sa3)" by (intro mult_le_mono2) simp
  then have "n \<le> C * (N * U_it sa3)" using assms(2) by linarith
  then have nu: "n \<le> Nc sa3 * (Ntot sa3 * U_it sa3)"
    unfolding f3 .
  obtain itU Um' where su: "store_U sa3 Um = (sa3\<lparr>U_it := itU\<rparr>, Um')" "U_it sa3 \<le> itU"
    "take n Um' = take n Um" "length Um \<le> length Um'"
    using store_U_take [OF nu assms(3)] by blast
  define sa4 where "sa4 = sa3\<lparr>U_it := itU\<rparr>"
  have ok4: "cursors_ok N C D sa4"
    using ok3 su(2) by (simp add: sa4_def cursors_ok_def)
  have f4: "Ntot sa4 = N" "Nd sa4 = D" "1 \<le> V_it sa4"
    using ok4 by (simp_all add: cursors_ok_def)
  have "N * 1 \<le> N * V_it sa4" using f4(3) by (rule mult_le_mono2)
  then have "D * N \<le> D * (N * V_it sa4)" by (intro mult_le_mono2) simp
  then have "m \<le> D * (N * V_it sa4)" using assms(4) by linarith
  then have nv: "m \<le> Nd sa4 * (Ntot sa4 * V_it sa4)"
    unfolding f4 .
  obtain itV Vm' where sv: "store_V sa4 Vm = (sa4\<lparr>V_it := itV\<rparr>, Vm')" "V_it sa4 \<le> itV"
    "take m Vm' = take m Vm" "length Vm \<le> length Vm'"
    using store_V_take [OF nv assms(5)] by blast
  have ok5: "cursors_ok N C D (sa4\<lparr>V_it := itV\<rparr>)"
    using ok4 sv(2) by (simp add: cursors_ok_def)
  have "post_phase sa (Some Um) (Some Vm) = (sa4\<lparr>V_it := itV\<rparr>, Some Um', Some Vm')"
    unfolding post_phase_def Let_def sample_U_def sample_V_def
    using su(1) sv(1) by (simp add: sa3_def sa4_def)
  then have "sa' = sa4\<lparr>V_it := itV\<rparr>" "Uo' = Some Um'" "Vo' = Some Vm'"
    using assms(6) by simp_all
  then show ?thesis using su(3,4) sv(3,4) ok5 by simp
qed

lemma post_all_prefix:
  assumes "\<forall>sa\<in>set sas. cursors_ok N C D sa" and "n \<le> C * N" and "n \<le> length Um"
    and "m \<le> D * N" and "m \<le> length Vm"
    and "post_all sas (Some Um) (Some Vm) = (sas', Uo', Vo')"
  shows "\<exists>Um' Vm'. Uo' = Some Um' \<and> Vo' = Some Vm' \<and>
           take n Um' = take n Um \<and> take m Vm' = take m Vm \<and>
           length Um \<le> length Um' \<and> length Vm \<le> length Vm' \<and>
           (\<forall>sa\<in>set sas'. cursors_ok N C D sa)"
  using assms
proof (induction sas arbitrary: Um Vm sas' Uo' Vo')
  case Nil
  then show ?case by auto
next
  case (Cons sa sas)
  obtain sa1 Uo1 Vo1 where p1: "post_phase sa (Some Um) (Some Vm) = (sa1, Uo1, Vo1)"
    by (cases "post_phase sa (Some Um) (Some Vm)") auto
  have "cursors_ok N C D sa" using Cons.prems(1) by simp
  from post_phase_prefix [OF this Cons.prems(2,3,4,5) p1]
  obtain Um1 Vm1 where r1: "Uo1 = Some Um1" "Vo1 = Some Vm1" "take n Um1 = take n Um"
    "take m Vm1 = take m Vm" "length Um \<le> length Um1" "length Vm \<le> length Vm1"
    "cursors_ok N C D sa1"
    by blast
  obtain sas2 Uo2 Vo2 where p2: "post_all sas (Some Um1) (Some Vm1) = (sas2, Uo2, Vo2)"
    by (cases "post_all sas (Some Um1) (Some Vm1)") auto
  have "\<exists>Um' Vm'. Uo2 = Some Um' \<and> Vo2 = Some Vm' \<and>
           take n Um' = take n Um1 \<and> take m Vm' = take m Vm1 \<and>
           length Um1 \<le> length Um' \<and> length Vm1 \<le> length Vm' \<and>
           (\<forall>sa\<in>set sas2. cursors_ok N C D sa)"
    using Cons.prems r1(5,6) p2 by (intro Cons.IH) simp_all
  then obtain Um2 Vm2 where r2: "Uo2 = Some Um2" "Vo2 = Some Vm2" "take n Um2 = take n Um1"
    "take m Vm2 = take m Vm1" "length Um1 \<le> length Um2" "length Vm1 \<le> length Vm2"
    "\<forall>sa\<in>set sas2. cursors_ok N C D sa"
    by blast
  have "post_all (sa # sas) (Some Um) (Some Vm) = (sa1 # sas2, Uo2, Vo2)"
    by (simp add: p1 r1(1,2) p2)
  then have "sas' = sa1 # sas2" "Uo' = Uo2" "Vo' = Vo2"
    using Cons.prems(6) by simp_all
  then show ?case using r1 r2 by simp
qed

lemma ssa_all_cursors:
  assumes "\<forall>sa\<in>set sas. cursors_ok N C D sa" and "ssa_all env fuel sas = Some sas'"
  shows "\<forall>sa\<in>set sas'. cursors_ok N C D sa"
  using assms
proof (induction sas arbitrary: sas')
  case Nil
  then show ?case by simp
next
  case (Cons sa sas)
  obtain s1 where s1: "ssa_phase fuel sa = Some s1"
    using Cons.prems(2) by (auto split: option.splits)
  obtain rest where rest: "ssa_all env fuel sas = Some rest"
    using Cons.prems(2) s1 by (auto split: option.splits)
  have res: "sas' = apply_event_effect (process_E1 env s1) s1 # rest"
    using Cons.prems(2) s1 rest by simp
  have "layout (apply_event_effect (process_E1 env s1) s1) = layout sa"
    using ssa_phase_layout [OF s1] by (simp add: apply_event_effect_layout)
  then have "cursors_ok N C D (apply_event_effect (process_E1 env s1) s1)"
    using Cons.prems(1) cursors_ok_layout by simp
  moreover have "\<forall>sa\<in>set rest. cursors_ok N C D sa"
    using Cons.IH Cons.prems(1) rest by simp
  ultimately show ?case by (simp add: res)
qed

lemma E2_all_cursors:
  assumes "\<forall>sa\<in>set sas. cursors_ok N C D sa"
  shows "\<forall>sa\<in>set (E2_all env sas). cursors_ok N C D sa"
proof
  fix sa assume "sa \<in> set (E2_all env sas)"
  then obtain k where k: "k < length sas"
    and sa: "sa = apply_event_effect (process_E2 env sas k) (sas ! k)"
    by (auto simp: E2_all_def)
  have "cursors_ok N C D (sas ! k)" using assms k by simp
  then show "cursors_ok N C D sa"
    unfolding sa using apply_event_effect_layout cursors_ok_layout by metis
qed

lemma swap_and_check_cursors:
  assumes "\<forall>sa\<in>set sas. cursors_ok N C D sa"
  shows "\<forall>sa\<in>set (fst (swap_and_check sas)). cursors_ok N C D sa"
  using assms
proof (induction sas)
  case Nil
  then show ?case by simp
next
  case (Cons sa sas)
  have "cursors_ok N C D (swap_v sa)"
    using Cons.prems swap_v_layout cursors_ok_layout by (metis list.set_intros(1))
  then show ?case
    using Cons by (auto split: prod.splits)
qed


lemma main_loop_prefix:
  assumes "\<forall>sa\<in>set sas. cursors_ok N C D sa" and "n \<le> C * N" and "n \<le> length Um"
    and "m \<le> D * N" and "m \<le> length Vm"
    and "main_loop env fuel days sas (Some Um) (Some Vm) = Some (e, s, Uo', Vo')"
  shows "\<exists>Um' Vm'. Uo' = Some Um' \<and> Vo' = Some Vm' \<and>
           take n Um' = take n Um \<and> take m Vm' = take m Vm"
  using assms
proof (induction days arbitrary: sas Um Vm)
  case 0
  then show ?case by simp
next
  case (Suc days)
  obtain s1 where s1: "ssa_all env fuel sas = Some s1"
    using Suc.prems(6) by (auto split: option.splits)
  have ok1: "\<forall>sa\<in>set s1. cursors_ok N C D sa"
    using ssa_all_cursors [OF Suc.prems(1) s1] .
  have ok2: "\<forall>sa\<in>set (E2_all env s1). cursors_ok N C D sa"
    using E2_all_cursors [OF ok1] .
  obtain s3 Uo1 Vo1 where p: "post_all (E2_all env s1) (Some Um) (Some Vm) = (s3, Uo1, Vo1)"
    by (cases "post_all (E2_all env s1) (Some Um) (Some Vm)") auto
  from post_all_prefix [OF ok2 Suc.prems(2,3,4,5) p]
  obtain Um1 Vm1 where r: "Uo1 = Some Um1" "Vo1 = Some Vm1" "take n Um1 = take n Um"
    "take m Vm1 = take m Vm" "length Um \<le> length Um1" "length Vm \<le> length Vm1"
    "\<forall>sa\<in>set s3. cursors_ok N C D sa"
    by blast
  obtain s5 e5 where sw: "swap_and_check s3 = (s5, e5)"
    by (cases "swap_and_check s3") auto
  have ok5: "\<forall>sa\<in>set s5. cursors_ok N C D sa"
    using swap_and_check_cursors [OF r(7)] sw by simp
  have unfold: "main_loop env fuel (Suc days) sas (Some Um) (Some Vm)
      = (if e5 \<noteq> 0 then Some (e5, s5, Some Um1, Some Vm1)
         else if U_it (s5 ! 0) \<ge> tlen (s5 ! 0) then Some (0, s5, Some Um1, Some Vm1)
         else main_loop env fuel days s5 (Some Um1) (Some Vm1))"
    by (simp add: s1 p r(1,2) sw)
  show ?case
  proof (cases "e5 \<noteq> 0 \<or> U_it (s5 ! 0) \<ge> tlen (s5 ! 0)")
    case True
    then have "Uo' = Some Um1" "Vo' = Some Vm1"
      using Suc.prems(6) unfolding unfold by (auto split: if_splits)
    then show ?thesis using r(3,4) by simp
  next
    case False
    then have rec: "main_loop env fuel days s5 (Some Um1) (Some Vm1) = Some (e, s, Uo', Vo')"
      using Suc.prems(6) unfolding unfold by simp
    have "n \<le> length Um1" "m \<le> length Vm1"
      using Suc.prems(3,5) r(5,6) by simp_all
    from Suc.IH [OF ok5 Suc.prems(2) this(1) Suc.prems(4) this(2) rec]
    show ?thesis using r(3,4) by auto
  qed
qed

lemma solver_prefix:
  assumes "\<forall>sa\<in>set sas. cursors_ok N C D sa" and "n \<le> C * N" and "n \<le> length Um"
    and "m \<le> D * N" and "m \<le> length Vm"
    and "SimInf_solver_ssa env fuel days sas (Some Um) (Some Vm) = Some (e, s, Uo', Vo')"
  shows "\<exists>Um' Vm'. Uo' = Some Um' \<and> Vo' = Some Vm' \<and>
           take n Um' = take n Um \<and> take m Vm' = take m Vm"
proof (cases "first_errcode (map init_worker sas) \<noteq> 0")
  case True
  then have "Uo' = Some Um" "Vo' = Some Vm"
    using assms(6) by (simp_all add: SimInf_solver_ssa_def Let_def)
  then show ?thesis by simp
next
  case False
  then have run: "main_loop env fuel days (map init_worker sas) (Some Um) (Some Vm)
      = Some (e, s, Uo', Vo')"
    using assms(6) by (simp add: SimInf_solver_ssa_def Let_def)
  have "\<forall>sa\<in>set (map init_worker sas). cursors_ok N C D sa"
    using assms(1) init_worker_layout cursors_ok_layout by auto
  from main_loop_prefix [OF this assms(2,3,4,5) run] show ?thesis .
qed

lemma setup_worker_cursors:
  "cursors_ok (args_Nn args) (args_Nc args) (args_Nd args) (setup_worker env args i)"
  by (simp add: setup_worker_def cursors_ok_def Let_def)

subsection \<open>C6: column 0 of the dense outputs\<close>

text \<open>
  C6. With dense outputs, whenever \<^verbatim>\<open>SimInf_run_solver_ssa\<close> returns, with or without an
  error, column 0 of \<open>U\<close> is \<^verbatim>\<open>u0\<close> and column 0 of \<open>V\<close> is \<^verbatim>\<open>v0\<close>. The sample cursors
  of every worker start at 1, and the sampling loops write a column \<open>k\<close> only where
  \<^verbatim>\<open>tt > tspan[k]\<close> holds, with the strict inequality. A run that returns is shown below
  the theorem.
\<close>

theorem initial_column_preserved:
  assumes "args_U args = Some Um" and "args_V args = Some Vm"
    and "n = args_Nn args * args_Nc args" and "m = args_Nn args * args_Nd args"
    and "n \<le> length (args_u0 args)" and "n \<le> length Um"
    and "m \<le> length (args_v0 args)" and "m \<le> length Vm"
    and "SimInf_run_solver_ssa env fuel days args = Some (e, Uo', Vo')"
  shows "(\<exists>Um' Vm'. Uo' = Some Um' \<and> Vo' = Some Vm' \<and>
            take n Um' = take n (args_u0 args) \<and> take m Vm' = take m (args_v0 args)) \<and>
         (\<forall>i. U_it (setup_worker env args i) = 1 \<and> V_it (setup_worker env args i) = 1) \<and>
         (\<forall>sa Xm sa' Xm'. store_U sa Xm = (sa', Xm') \<longrightarrow>
            (\<forall>k. U_it sa \<le> k \<and> k < U_it sa' \<longrightarrow> tt sa > tspan sa ! k)) \<and>
         (\<forall>sa Xm sa' Xm'. store_V sa Xm = (sa', Xm') \<longrightarrow>
            (\<forall>k. V_it sa \<le> k \<and> k < V_it sa' \<longrightarrow> tt sa > tspan sa ! k))"
proof -
  let ?U0 = "memcpy Um 0 (args_u0 args) n" and ?V0 = "memcpy Vm 0 (args_v0 args) m"
  let ?sas = "map (setup_worker env args) [0..<args_Nthread args]"
  have lu: "length (take n (args_u0 args)) = n" and lv: "length (take m (args_v0 args)) = m"
    using assms(5,7) by simp_all
  have u0: "take n ?U0 = take n (args_u0 args)"
    using lu by (simp add: memcpy_def write_at_def)
  have v0: "take m ?V0 = take m (args_v0 args)"
    using lv by (simp add: memcpy_def write_at_def)
  have lU: "n \<le> length ?U0" and lV: "m \<le> length ?V0"
    using assms(6,8) write_at_length_ge [of Um 0] write_at_length_ge [of Vm 0]
    unfolding memcpy_def by (metis order_trans)+
  have col0: "\<exists>Um' Vm'. Uo' = Some Um' \<and> Vo' = Some Vm' \<and>
      take n Um' = take n (args_u0 args) \<and> take m Vm' = take m (args_v0 args)"
  proof (cases "split_events env \<noteq> 0")
    case True
    then have "Uo' = Some ?U0" "Vo' = Some ?V0"
      using assms(9) by (simp_all add: SimInf_run_solver_ssa_def Let_def assms(1,2,3,4))
    then show ?thesis using u0 v0 by simp
  next
    case False
    then obtain s where run: "SimInf_solver_ssa env fuel days ?sas (Some ?U0) (Some ?V0)
        = Some (e, s, Uo', Vo')"
      using assms(9) by (auto simp: SimInf_run_solver_ssa_def Let_def assms(1,2,3,4))
    have ok: "\<forall>sa\<in>set ?sas. cursors_ok (args_Nn args) (args_Nc args) (args_Nd args) sa"
      by (auto simp: setup_worker_cursors)
    have nn: "n \<le> args_Nc args * args_Nn args" "m \<le> args_Nd args * args_Nn args"
      by (simp_all add: assms(3,4) mult.commute)
    from solver_prefix [OF ok nn(1) lU nn(2) lV run] show ?thesis
      using u0 v0 by auto
  qed
  have cur: "\<forall>i. U_it (setup_worker env args i) = 1 \<and> V_it (setup_worker env args i) = 1"
    by (simp add: setup_worker_def Let_def)
  have sU: "\<forall>sa Xm sa' Xm'. store_U sa Xm = (sa', Xm') \<longrightarrow>
      (\<forall>k. U_it sa \<le> k \<and> k < U_it sa' \<longrightarrow> tt sa > tspan sa ! k)"
  proof (intro allI impI)
    fix sa Xm sa' Xm' k
    assume st: "store_U sa Xm = (sa', Xm')" and k: "U_it sa \<le> k \<and> k < U_it sa'"
    obtain it Um' where "store_U sa Xm = (sa\<lparr>U_it := it\<rparr>, Um')"
      "\<forall>k. U_it sa \<le> k \<and> k < it \<longrightarrow> k < tlen sa \<and> tt sa > tspan sa ! k"
      using store_U_take [of 0 sa Xm] by auto
    then show "tt sa > tspan sa ! k" using st k by auto
  qed
  have sV: "\<forall>sa Xm sa' Xm'. store_V sa Xm = (sa', Xm') \<longrightarrow>
      (\<forall>k. V_it sa \<le> k \<and> k < V_it sa' \<longrightarrow> tt sa > tspan sa ! k)"
  proof (intro allI impI)
    fix sa Xm sa' Xm' k
    assume st: "store_V sa Xm = (sa', Xm')" and k: "V_it sa \<le> k \<and> k < V_it sa'"
    obtain it Vm' where "store_V sa Xm = (sa\<lparr>V_it := it\<rparr>, Vm')"
      "\<forall>k. V_it sa \<le> k \<and> k < it \<longrightarrow> k < tlen sa \<and> tt sa > tspan sa ! k"
      using store_V_take [of 0 sa Xm] by auto
    then show "tt sa > tspan sa ! k" using st k by auto
  qed
  from col0 cur sU sV show ?thesis by blast
qed

lemma sis_setup:
  "setup_worker sis_env sis_solver_args 0 =
     \<lparr>rng = sconst (Fin (1/2)), Ntot = 1, Ni = 0, Nn = 1, Nt = 2, Nc = 2, Nd = 1, Nld = 0,
      irG = [0, 1, 0, 1], jcG = [0, 2, 4],
      irS = [0, 1, 0, 1], jcS = [0, 2, 4], prS = [- 1, 1, 1, - 1],
      tr_fun = [sis_S_to_I, sis_I_to_S], pts_fun = sis_post_time_step,
      tt = Fin 0, next_day = Fin 1, tspan = [Fin 0, Fin 1, Fin 2], tlen = 3,
      U_it = 1, V_it = 1,
      u = [100, 0], v = [Fin 1], v_new = [Fin 0], ldata = [], gdata = [Fin 0, Fin 0],
      update_node = [0],
      t_rate = [Fin 0, Fin 0], sum_t_rate = [Fin 0], t_time = [Fin 0], errcode = 0\<rparr>"
  by (simp add: setup_worker_def sis_env_def sis_solver_args_def Let_def one_double_def
      numeral_2_eq_2)

lemma sis_run:
  "SimInf_run_solver_ssa sis_env (Suc 0) (Suc (Suc (Suc 0))) sis_solver_args
     = Some (0, Some [100, 0, 100, 0, 100, 0], Some [Fin 1, Fin 1, Fin 1])"
proof -
  have args: "args_U sis_solver_args = Some (replicate 6 0)"
    "args_V sis_solver_args = Some (replicate 3 (Fin 0))"
    "args_u0 sis_solver_args = [100, 0]" "args_v0 sis_solver_args = [Fin 1]"
    "args_Nn sis_solver_args = 1" "args_Nc sis_solver_args = 2" "args_Nd sis_solver_args = 1"
    "args_Nthread sis_solver_args = 1" "split_events sis_env = 0"
    by (simp_all add: sis_solver_args_def sis_env_def)
  show ?thesis
    unfolding SimInf_run_solver_ssa_def args
    apply (simp add: sis_setup)
    apply (simp add: SimInf_solver_ssa_def init_worker_def init_node_def init_rate_def
        propensity_def sis_S_to_I_def sis_I_to_S_def invalid_rate_def zero_double_def
        one_double_def upt_rec Let_def memcpy_def write_at_def numeral_eq_Suc)
    apply (simp add: ssa_phase_def ssa_step_def E2_all_def apply_event_effect_def no_event_def
        sis_env_def post_phase_def post_time_step_def post_step_node_def call_pts_fun_def
        sis_post_time_step_def sample_U_def sample_V_def store_U.simps store_V.simps
        swap_v_def zero_double_def one_double_def upt_rec Let_def memcpy_def write_at_def)
    done
qed

theorem initial_column_preserved_witness:
  "SimInf_run_solver_ssa sis_env (Suc 0) (Suc (Suc (Suc 0))) sis_solver_args
     = Some (0, Some [100, 0, 100, 0, 100, 0], Some [Fin 1, Fin 1, Fin 1]) \<and>
   take 2 [100, 0, 100, 0, 100, 0] = take 2 (args_u0 sis_solver_args) \<and>
   take 1 [Fin 1, Fin 1, Fin 1] = take 1 (args_v0 sis_solver_args)"
proof -
  have h: "args_U sis_solver_args = Some (replicate 6 0)"
    "args_V sis_solver_args = Some (replicate 3 (Fin 0))"
    "2 = args_Nn sis_solver_args * args_Nc sis_solver_args"
    "1 = args_Nn sis_solver_args * args_Nd sis_solver_args"
    "2 \<le> length (args_u0 sis_solver_args)" "2 \<le> length (replicate 6 (0::int))"
    "1 \<le> length (args_v0 sis_solver_args)" "1 \<le> length (replicate 3 (Fin 0))"
    by (simp_all add: sis_solver_args_def)
  from initial_column_preserved [OF h sis_run]
  obtain Um' Vm' where "Some [100, 0, 100, 0, 100, 0] = Some Um'"
    "Some [Fin 1, Fin 1, Fin 1] = Some Vm'"
    "take 2 Um' = take 2 (args_u0 sis_solver_args)"
    "take 1 Vm' = take 1 (args_v0 sis_solver_args)"
    by blast
  then have "take 2 [100, 0, 100, 0, 100, 0] = take 2 (args_u0 sis_solver_args)"
    "take 1 [Fin 1, Fin 1, Fin 1] = take 1 (args_v0 sis_solver_args)"
    by auto
  with sis_run show ?thesis by blast
qed

subsection \<open>C5: the check of the rates\<close>

lemma error_codes_nonzero:
  "SIMINF_ERR_INVALID_RATE \<noteq> 0" "SIMINF_ERR_NEGATIVE_STATE \<noteq> 0"
  by (simp_all add: SIMINF_ERR_INVALID_RATE_def SIMINF_ERR_NEGATIVE_STATE_def)

lemma init_rate_step:
  "init_rate node j sa =
     sa\<lparr>t_rate := (t_rate sa)[node * Nt sa + j := initial_rate sa node j],
        sum_t_rate := (sum_t_rate sa)[node := sum_t_rate sa ! node + initial_rate sa node j],
        errcode := (if invalid_rate (initial_rate sa node j)
                    then SIMINF_ERR_INVALID_RATE else errcode sa)\<rparr>"
  by (simp add: init_rate_def Let_def initial_rate_def)

lemma initial_rate_frame:
  "initial_rate (sa\<lparr>t_rate := r, sum_t_rate := s, errcode := e, t_time := t\<rparr>) node j
     = initial_rate sa node j"
  by (simp add: initial_rate_def propensity_def)

lemma init_rate_fold_frame:
  "\<exists>r s e. fold (init_rate node) js sa
     = sa\<lparr>t_rate := r, sum_t_rate := s, errcode := e, t_time := t_time sa\<rparr>"
proof (induction js arbitrary: sa)
  case Nil
  show ?case
    by (rule exI [of _ "t_rate sa"], rule exI [of _ "sum_t_rate sa"],
        rule exI [of _ "errcode sa"]) simp
next
  case (Cons j js)
  let ?s = "init_rate node j sa"
  obtain r s e where ih: "fold (init_rate node) js ?s
      = ?s\<lparr>t_rate := r, sum_t_rate := s, errcode := e, t_time := t_time ?s\<rparr>"
    using Cons.IH by blast
  have "fold (init_rate node) (j # js) sa
      = sa\<lparr>t_rate := r, sum_t_rate := s, errcode := e, t_time := t_time sa\<rparr>"
    unfolding fold_simps ih by (simp add: init_rate_step)
  then show ?case by blast
qed

lemma init_rate_fold_errcode:
  "errcode (fold (init_rate node) js sa)
     = (if \<exists>j\<in>set js. invalid_rate (initial_rate sa node j)
        then SIMINF_ERR_INVALID_RATE else errcode sa)"
proof (induction js arbitrary: sa)
  case Nil
  show ?case by simp
next
  case (Cons j js)
  let ?s = "init_rate node j sa"
  have same: "\<And>j'. initial_rate ?s node j' = initial_rate sa node j'"
    by (simp add: init_rate_step initial_rate_def propensity_def)
  have e1: "errcode ?s = (if invalid_rate (initial_rate sa node j)
                          then SIMINF_ERR_INVALID_RATE else errcode sa)"
    by (simp add: init_rate_step)
  have "errcode (fold (init_rate node) (j # js) sa)
      = (if \<exists>j\<in>set js. invalid_rate (initial_rate sa node j)
         then SIMINF_ERR_INVALID_RATE else errcode ?s)"
    using Cons.IH [of ?s] by (simp only: fold_simps same)
  then show ?case
    unfolding e1 by (cases "invalid_rate (initial_rate sa node j)") simp_all
qed

lemma init_node_frame:
  "\<exists>r s e t. init_node node sa
     = sa\<lparr>t_rate := r, sum_t_rate := s, errcode := e, t_time := t\<rparr>"
proof -
  let ?s = "sa\<lparr>sum_t_rate := (sum_t_rate sa)[node := 0]\<rparr>"
  obtain r s e where "fold (init_rate node) [0..<Nt ?s] ?s
      = ?s\<lparr>t_rate := r, sum_t_rate := s, errcode := e, t_time := t_time ?s\<rparr>"
    using init_rate_fold_frame by blast
  then have "init_node node sa
      = sa\<lparr>t_rate := r, sum_t_rate := s, errcode := e, t_time := (t_time sa)[node := tt sa]\<rparr>"
    by (simp add: init_node_def Let_def)
  then show ?thesis by blast
qed

lemma init_node_errcode:
  "errcode (init_node node sa)
     = (if \<exists>j<Nt sa. invalid_rate (initial_rate sa node j)
        then SIMINF_ERR_INVALID_RATE else errcode sa)"
proof -
  let ?s = "sa\<lparr>sum_t_rate := (sum_t_rate sa)[node := 0]\<rparr>"
  have same: "\<And>j. initial_rate ?s node j = initial_rate sa node j"
    by (simp add: initial_rate_def propensity_def)
  have "errcode (init_node node sa) = errcode (fold (init_rate node) [0..<Nt sa] ?s)"
    by (simp add: init_node_def Let_def)
  also have "\<dots> = (if \<exists>j\<in>set [0..<Nt sa]. invalid_rate (initial_rate sa node j)
                     then SIMINF_ERR_INVALID_RATE else errcode sa)"
    unfolding init_rate_fold_errcode same by simp
  also have "\<dots> = (if \<exists>j<Nt sa. invalid_rate (initial_rate sa node j)
                     then SIMINF_ERR_INVALID_RATE else errcode sa)"
    by (rule if_cong) auto
  finally show ?thesis .
qed

lemma init_nodes_errcode:
  "errcode (fold init_node nodes sa)
     = (if \<exists>node\<in>set nodes. \<exists>j<Nt sa. invalid_rate (initial_rate sa node j)
        then SIMINF_ERR_INVALID_RATE else errcode sa)"
proof (induction nodes arbitrary: sa)
  case Nil
  show ?case by simp
next
  case (Cons node nodes)
  let ?s = "init_node node sa"
  obtain r s e t where fr: "?s = sa\<lparr>t_rate := r, sum_t_rate := s, errcode := e, t_time := t\<rparr>"
    using init_node_frame by blast
  have same: "\<And>node' j'. initial_rate ?s node' j' = initial_rate sa node' j'" "Nt ?s = Nt sa"
    unfolding fr by (simp_all add: initial_rate_frame)
  have "errcode (fold init_node (node # nodes) sa)
      = (if \<exists>node\<in>set nodes. \<exists>j<Nt sa. invalid_rate (initial_rate sa node j)
         then SIMINF_ERR_INVALID_RATE else errcode ?s)"
    using Cons.IH [of ?s] by (simp only: fold_simps same)
  then have eq: "errcode (fold init_node (node # nodes) sa)
      = (if \<exists>node\<in>set nodes. \<exists>j<Nt sa. invalid_rate (initial_rate sa node j)
         then SIMINF_ERR_INVALID_RATE
         else if \<exists>j<Nt sa. invalid_rate (initial_rate sa node j)
              then SIMINF_ERR_INVALID_RATE else errcode sa)"
    by (simp only: init_node_errcode)
  show ?case
  proof (cases "\<exists>node\<in>set nodes. \<exists>j<Nt sa. invalid_rate (initial_rate sa node j)")
    case True
    then have "\<exists>n\<in>set (node # nodes). \<exists>j<Nt sa. invalid_rate (initial_rate sa n j)"
      by auto
    then show ?thesis unfolding eq using True by (simp only: if_True)
  next
    case False
    note F = False
    show ?thesis
    proof (cases "\<exists>j<Nt sa. invalid_rate (initial_rate sa node j)")
      case True
      then have "\<exists>n\<in>set (node # nodes). \<exists>j<Nt sa. invalid_rate (initial_rate sa n j)"
        by auto
      then show ?thesis unfolding eq using True F by (simp only: if_True if_False)
    next
      case False
      then have "\<not> (\<exists>n\<in>set (node # nodes). \<exists>j<Nt sa. invalid_rate (initial_rate sa n j))"
        using F by auto
      then show ?thesis unfolding eq using False F by (simp only: if_False)
    qed
  qed
qed

lemma init_worker_errcode:
  "errcode (init_worker sa)
     = (if \<exists>node<Nn sa. \<exists>j<Nt sa. invalid_rate (initial_rate sa node j)
        then SIMINF_ERR_INVALID_RATE else errcode sa)"
proof -
  have "errcode (init_worker sa)
      = (if \<exists>node\<in>set [0..<Nn sa]. \<exists>j<Nt sa. invalid_rate (initial_rate sa node j)
         then SIMINF_ERR_INVALID_RATE else errcode sa)"
    unfolding init_worker_def by (rule init_nodes_errcode)
  also have "\<dots> = (if \<exists>node<Nn sa. \<exists>j<Nt sa. invalid_rate (initial_rate sa node j)
                     then SIMINF_ERR_INVALID_RATE else errcode sa)"
    by (rule if_cong) auto
  finally show ?thesis .
qed

lemma refresh_fold_errcode:
  "errcode (fst (fold (refresh_entry node) js (sa, d)))
     = (if \<exists>j\<in>set js. invalid_rate (refreshed sa node (irG sa ! j))
        then SIMINF_ERR_INVALID_RATE else errcode sa)"
proof (induction js arbitrary: sa d)
  case Nil
  show ?case by simp
next
  case (Cons j js)
  let ?s = "sa\<lparr>t_rate := (t_rate sa)[node * Nt sa + irG sa ! j := refreshed sa node (irG sa ! j)],
         errcode := (if invalid_rate (refreshed sa node (irG sa ! j))
                     then SIMINF_ERR_INVALID_RATE else errcode sa)\<rparr>"
  let ?d = "d + (refreshed sa node (irG sa ! j) - t_rate sa ! (node * Nt sa + irG sa ! j))"
  have step: "fold (refresh_entry node) (j # js) (sa, d) = fold (refresh_entry node) js (?s, ?d)"
    by (simp add: refresh_entry_step)
  have same: "\<And>i. refreshed ?s node i = refreshed sa node i" "irG ?s = irG sa"
    by (simp_all add: refreshed_rate_errcode)
  have "errcode (fst (fold (refresh_entry node) (j # js) (sa, d)))
      = (if \<exists>j\<in>set js. invalid_rate (refreshed sa node (irG sa ! j))
         then SIMINF_ERR_INVALID_RATE else errcode ?s)"
    unfolding step using Cons.IH [of ?s ?d] by (simp only: same)
  then show ?case
    by (cases "invalid_rate (refreshed sa node (irG sa ! j))") simp_all
qed

lemma refresh_rates_errcode:
  "errcode (refresh_rates node tr sa)
     = (if \<exists>j\<in>set (csc_column (jcG sa) tr). invalid_rate (refreshed sa node (irG sa ! j))
        then SIMINF_ERR_INVALID_RATE else errcode sa)"
proof -
  have "errcode (refresh_rates node tr sa)
      = errcode (fst (fold (refresh_entry node) (csc_column (jcG sa) tr) (sa, 0)))"
    by (simp add: refresh_rates_def csc_column_def split: prod.splits)
  then show ?thesis by (simp only: refresh_fold_errcode)
qed

lemma full_fold_errcode:
  "errcode (fst (fold (full_refresh_entry node) js (sa, d)))
     = (if \<exists>j\<in>set js. invalid_rate (recomputed sa node j)
        then SIMINF_ERR_INVALID_RATE else errcode sa)"
proof (induction js arbitrary: sa d)
  case Nil
  show ?case by simp
next
  case (Cons j js)
  let ?s = "sa\<lparr>t_rate := (t_rate sa)[node * Nt sa + j := recomputed sa node j],
         errcode := (if invalid_rate (recomputed sa node j)
                     then SIMINF_ERR_INVALID_RATE else errcode sa)\<rparr>"
  let ?d = "d + (recomputed sa node j - t_rate sa ! (node * Nt sa + j))"
  have step: "fold (full_refresh_entry node) (j # js) (sa, d)
      = fold (full_refresh_entry node) js (?s, ?d)"
    by (simp add: full_refresh_entry_step)
  have same: "\<And>i. recomputed ?s node i = recomputed sa node i"
    by (simp add: recomputed_rate_errcode)
  have "errcode (fst (fold (full_refresh_entry node) (j # js) (sa, d)))
      = (if \<exists>j\<in>set js. invalid_rate (recomputed sa node j)
         then SIMINF_ERR_INVALID_RATE else errcode ?s)"
    unfolding step using Cons.IH [of ?s ?d] by (simp only: same)
  then show ?case
    by (cases "invalid_rate (recomputed sa node j)") simp_all
qed

lemma full_refresh_errcode:
  "errcode (full_refresh node sa)
     = (if \<exists>j<Nt sa. invalid_rate (recomputed sa node j)
        then SIMINF_ERR_INVALID_RATE else errcode sa)"
proof -
  have "errcode (full_refresh node sa)
      = errcode (fst (fold (full_refresh_entry node) [0..<Nt sa] (sa, 0)))"
    by (simp add: full_refresh_def split: prod.splits)
  also have "\<dots> = (if \<exists>j\<in>set [0..<Nt sa]. invalid_rate (recomputed sa node j)
                     then SIMINF_ERR_INVALID_RATE else errcode sa)"
    by (simp only: full_fold_errcode)
  also have "\<dots> = (if \<exists>j<Nt sa. invalid_rate (recomputed sa node j)
                     then SIMINF_ERR_INVALID_RATE else errcode sa)"
    by (rule if_cong) auto
  finally show ?thesis .
qed

lemma init_return:
  assumes "\<forall>sa\<in>set sas. errcode sa = 0"
    and "\<exists>sa\<in>set sas. \<exists>node<Nn sa. \<exists>j<Nt sa. invalid_rate (initial_rate sa node j)"
  shows "SimInf_solver_ssa h fuel days sas Uo Vo
           = Some (SIMINF_ERR_INVALID_RATE, map init_worker sas, Uo, Vo)"
proof -
  have "\<forall>sa\<in>set sas. errcode (init_worker sa) = 0 \<or> errcode (init_worker sa) = SIMINF_ERR_INVALID_RATE"
    using assms(1) by (simp add: init_worker_errcode)
  then have a: "\<forall>sb\<in>set (map init_worker sas). errcode sb = 0 \<or> errcode sb = SIMINF_ERR_INVALID_RATE"
    by simp
  have "\<exists>sa\<in>set sas. errcode (init_worker sa) = SIMINF_ERR_INVALID_RATE"
    using assms(2) by (auto simp: init_worker_errcode)
  then obtain sa where "sa \<in> set sas" "errcode (init_worker sa) = SIMINF_ERR_INVALID_RATE"
    by blast
  then have "init_worker sa \<in> set (map init_worker sas)" "errcode (init_worker sa) \<noteq> 0"
    using error_codes_nonzero by simp_all
  then have b: "\<exists>sb\<in>set (map init_worker sas). errcode sb \<noteq> 0"
    by blast
  have c: "\<And>s. \<forall>sb\<in>set s. errcode sb = 0 \<or> errcode sb = SIMINF_ERR_INVALID_RATE \<Longrightarrow>
      \<exists>sb\<in>set s. errcode sb \<noteq> 0 \<Longrightarrow> first_errcode s = SIMINF_ERR_INVALID_RATE"
  proof -
    fix s :: "thread_args list"
    show "\<forall>sb\<in>set s. errcode sb = 0 \<or> errcode sb = SIMINF_ERR_INVALID_RATE \<Longrightarrow>
      \<exists>sb\<in>set s. errcode sb \<noteq> 0 \<Longrightarrow> first_errcode s = SIMINF_ERR_INVALID_RATE"
      by (induction s) auto
  qed
  have "first_errcode (map init_worker sas) = SIMINF_ERR_INVALID_RATE"
    using c [OF a b] .
  then show ?thesis
    using error_codes_nonzero by (simp add: SimInf_solver_ssa_def Let_def)
qed

lemma failing_setup: "setup_worker sis_env failing_args 0 = failing_worker"
  by (simp add: setup_worker_def sis_env_def failing_args_def failing_worker_def Let_def
      one_double_def numeral_2_eq_2)

lemma failing_init: "init_worker failing_worker = failing_worker"
  by (simp add: failing_worker_def init_worker_def init_node_def init_rate_def
        propensity_def phi_rate_def invalid_rate_def zero_double_def
        one_double_def upt_rec Let_def numeral_eq_Suc)

lemma failing_ssa: "ssa_phase (Suc 0) failing_worker = Some failing_day"
  by (simp add: failing_day_def failing_worker_def ssa_phase_def ssa_step_def zero_double_def
        one_double_def upt_rec Let_def numeral_eq_Suc)

lemma failing_call: "call_pts_fun 0 failing_day = (1, failing_called)"
  by (simp add: failing_called_def failing_day_def failing_worker_def call_pts_fun_def
      failing_post_time_step_def write_at_def)

lemma failing_rate: "recomputed failing_called 0 0 = Fin (- 1)"
  by (simp add: recomputed_def propensity_def failing_called_def failing_day_def
      failing_worker_def phi_rate_def)

lemma failing_refresh:
  "full_refresh 0 failing_called
     = failing_called\<lparr>t_rate := [Fin (- 1), Fin 0], sum_t_rate := [Fin (- 1), Fin 0],
         errcode := SIMINF_ERR_INVALID_RATE\<rparr>"
  by (simp add: failing_called_def failing_day_def failing_worker_def full_refresh_def
      full_refresh_entry_def propensity_def phi_rate_def invalid_rate_def zero_double_def
      one_double_def minus_double_def upt_rec Let_def)

lemma failing_run:
  "SimInf_run_solver_ssa sis_env (Suc 0) (Suc 0) failing_args
     = Some (SIMINF_ERR_INVALID_RATE - 1, Some [1, 1, 0, 0],
             Some [Fin 0, Fin 0, Fin 0, Fin 0])"
proof -
  have args: "args_U failing_args = Some (replicate 4 0)"
    "args_V failing_args = Some (replicate 4 (Fin 0))"
    "args_u0 failing_args = [1, 1]" "args_v0 failing_args = [Fin 0, Fin 0]"
    "args_Nn failing_args = 2" "args_Nc failing_args = 1" "args_Nd failing_args = 1"
    "args_Nthread failing_args = 1" "split_events sis_env = 0"
    by (simp_all add: failing_args_def sis_env_def)
  show ?thesis
    unfolding SimInf_run_solver_ssa_def args
    apply (simp add: failing_setup)
    apply (simp add: SimInf_solver_ssa_def failing_init)
    apply (simp add: failing_ssa)
    apply (simp add: failing_day_def failing_worker_def E2_all_def apply_event_effect_def
        no_event_def
        sis_env_def post_phase_def post_time_step_def post_step_node_def call_pts_fun_def
        failing_post_time_step_def sample_U_def sample_V_def store_U.simps store_V.simps
        full_refresh_def full_refresh_entry_def propensity_def phi_rate_def invalid_rate_def
        minus_double_def SIMINF_ERR_INVALID_RATE_def
        swap_v_def zero_double_def one_double_def upt_rec Let_def memcpy_def write_at_def
        numeral_eq_Suc)
    done
qed

text \<open>
  The loop over the nodes of step 4 does not test the error code either. In the model
  \<open>failing_args\<close> the full refresh of node 0 on the first day calls the propensity,
  which returns \<open>-1\<close>, and sets the error code of the worker to
  \<^verbatim>\<open>SIMINF_ERR_INVALID_RATE\<close>. The loop goes on to node 1, where the callback returns a
  negative code, which replaces the error code of the worker, and the solver returns
  the code of the callback.
\<close>

lemma later_error_replaces_code:
  "setup_worker sis_env failing_args 0 = failing_worker \<and>
   init_worker failing_worker = failing_worker \<and>
   ssa_phase (Suc 0) failing_worker = Some failing_day \<and>
   call_pts_fun 0 failing_day = (1, failing_called) \<and>
   recomputed failing_called 0 0 = Fin (- 1) \<and>
   invalid_rate (recomputed failing_called 0 0) \<and>
   errcode (full_refresh 0 failing_called) = SIMINF_ERR_INVALID_RATE \<and>
   SimInf_run_solver_ssa sis_env (Suc 0) (Suc 0) failing_args
     = Some (SIMINF_ERR_INVALID_RATE - 1, Some [1, 1, 0, 0],
             Some [Fin 0, Fin 0, Fin 0, Fin 0]) \<and>
   SIMINF_ERR_INVALID_RATE - 1 \<noteq> SIMINF_ERR_INVALID_RATE"
proof -
  have "invalid_rate (recomputed failing_called 0 0)"
    by (simp add: failing_rate invalid_rate_def zero_double_def)
  moreover have "errcode (full_refresh 0 failing_called) = SIMINF_ERR_INVALID_RATE"
    by (simp add: failing_refresh)
  moreover have "SIMINF_ERR_INVALID_RATE - 1 \<noteq> SIMINF_ERR_INVALID_RATE"
    by simp
  ultimately show ?thesis
    using failing_setup failing_init failing_ssa failing_call failing_rate failing_run
    by (intro conjI)
qed

lemma nan_init: "init_worker (setup_worker sis_env nan_args 0) = nan_worker"
  by (simp add: nan_args_def sis_env_def setup_worker_def nan_worker_def init_worker_def
        init_node_def init_rate_def
        propensity_def late_nan_def invalid_rate_def zero_double_def
        one_double_def upt_rec Let_def)

lemma nan_first: "ssa_step 0 nan_worker = Continue nan_hit"
  using ln_half_bounds
  by (simp add: nan_hit_def nan_worker_def ssa_step_def draw_transition_def
      gsl_rng_uniform_pos_def
      select_transition_def scan.simps update_state_def refresh_rates_def refresh_entry_def
      propensity_def late_nan_def invalid_rate_def zero_double_def one_double_def
      minus_double_def upt_rec Let_def)

lemma nan_second: "ssa_step 0 nan_hit = Continue nan_loop"
  by (simp add: nan_hit_def nan_loop_def nan_worker_def ssa_step_def draw_transition_def
      gsl_rng_uniform_pos_def
      select_transition_def scan.simps update_state_def refresh_rates_def refresh_entry_def
      propensity_def late_nan_def invalid_rate_def zero_double_def one_double_def
      minus_double_def upt_rec Let_def)

lemma nan_fixed: "ssa_step 0 nan_loop = Continue nan_loop"
  by (simp add: nan_loop_def nan_worker_def ssa_step_def draw_transition_def
      gsl_rng_uniform_pos_def
      select_transition_def scan.simps update_state_def refresh_rates_def refresh_entry_def
      propensity_def late_nan_def invalid_rate_def zero_double_def one_double_def
      minus_double_def upt_rec Let_def)

lemma nan_loop_forever: "ssa_node fuel 0 nan_loop = None"
  by (induction fuel) (simp_all add: nan_fixed)

lemma nan_node: "ssa_node fuel 0 nan_worker = None"
proof (cases fuel)
  case 0
  then show ?thesis by simp
next
  case (Suc f)
  show ?thesis
  proof (cases f)
    case 0
    then show ?thesis using Suc by (simp add: nan_first)
  next
    case (Suc g)
    then show ?thesis using \<open>fuel = Suc f\<close> by (simp add: nan_first nan_second nan_loop_forever)
  qed
qed

lemma nan_phase: "ssa_phase fuel nan_worker = None"
proof -
  have "Nn nan_worker = 1" "errcode nan_worker = 0" by (simp_all add: nan_worker_def)
  then show ?thesis by (simp add: ssa_phase_def nan_node)
qed

lemma nan_run: "SimInf_run_solver_ssa sis_env fuel days nan_args = None"
proof -
  have e: "errcode nan_worker = 0" by (simp add: nan_worker_def)
  have "main_loop sis_env fuel days [nan_worker] Uo Vo = None" for Uo Vo
    by (cases days) (simp_all add: nan_phase)
  then have "SimInf_solver_ssa sis_env fuel days [setup_worker sis_env nan_args 0] Uo Vo = None"
    for Uo Vo
    using e by (simp add: SimInf_solver_ssa_def nan_init)
  moreover have "args_Nthread nan_args = 1" "split_events sis_env = 0"
    by (simp_all add: nan_args_def sis_env_def)
  ultimately show ?thesis
    by (simp add: SimInf_run_solver_ssa_def Let_def)
qed

text \<open>
  C5. The check is made where the claim says, and an invalid value sets the error code
  of the worker, but the solver does not always return it: the inner loop of a node
  does not test the error code. In the run of \<open>nan_args\<close> the rate at the
  initialisation is 1 and valid. The first step of node 0 on the first day fires the
  transition, the refresh along the dependency graph calls the propensity at the
  advanced time of the node and gets a value that is not a number, and the error code
  is set to \<^verbatim>\<open>SIMINF_ERR_INVALID_RATE\<close>. From then on the sum of the rates is not a
  number, both exits of the loop compare with it and are never taken, and every pass
  fires the transition again: the loop of node 0 never ends, whatever the fuel, and the
  solver does not return.
\<close>

theorem invalid_rate_no_return:
  "init_worker (setup_worker sis_env nan_args 0) = nan_worker \<and>
   errcode nan_worker = 0 \<and>
   refreshed (nan_worker\<lparr>t_time := [Fin (- ln (1/2))]\<rparr>) 0 0 = NaN \<and>
   invalid_rate NaN \<and>
   ssa_step 0 nan_worker = Continue nan_hit \<and>
   errcode nan_hit = SIMINF_ERR_INVALID_RATE \<and>
   ssa_step 0 nan_hit = Continue nan_loop \<and>
   ssa_step 0 nan_loop = Continue nan_loop \<and>
   errcode nan_loop = SIMINF_ERR_INVALID_RATE \<and>
   ssa_node fuel 0 nan_worker = None \<and>
   SimInf_run_solver_ssa sis_env fuel days nan_args = None"
proof -
  have "errcode nan_worker = 0" by (simp add: nan_worker_def)
  moreover have "refreshed (nan_worker\<lparr>t_time := [Fin (- ln (1/2))]\<rparr>) 0 0 = NaN"
    using ln_half_bounds
    by (simp add: refreshed_def propensity_def nan_worker_def late_nan_def zero_double_def)
  moreover have "invalid_rate NaN" by (simp add: invalid_rate_def)
  moreover have "errcode nan_hit = SIMINF_ERR_INVALID_RATE" by (simp add: nan_hit_def)
  moreover have "errcode nan_loop = SIMINF_ERR_INVALID_RATE" by (simp add: nan_loop_def)
  ultimately show ?thesis
    using nan_init nan_first nan_second nan_fixed nan_node nan_run by (intro conjI)
qed

theorem invalid_rate_no_return_witness:
  "invalid_rate NaN \<and>
   ssa_node (Suc (Suc (Suc 0))) 0 nan_worker = None \<and>
   SimInf_run_solver_ssa sis_env (Suc (Suc (Suc 0))) (Suc (Suc 0)) nan_args = None"
  using invalid_rate_no_return [of "Suc (Suc (Suc 0))" "Suc (Suc 0)"] by blast

end
